theory Spec2Isabelle
  imports Main
begin

section \<open>The Titanium adapter for Loki: data model\<close>

text \<open>
  The adapter (\<^verbatim>\<open>lib/adapter.js\<close>) stores a Loki database as one metadata file
  \<^verbatim>\<open>_\<close> and one newline-delimited JSON file per collection, named by the
  collection's index. Strings are modelled as byte lists, one \<^typ>\<open>char\<close> per byte.
\<close>

abbreviation newline :: char where
  "newline \<equiv> CHR 0x0A"

abbreviation NUL :: char where
  "NUL \<equiv> CHR 0x00"

text \<open>
  The value of \<^verbatim>\<open>result.error\<close> when a write or a read reports failure; the code tests it
  for truth, and it is taken to be a value that JavaScript counts as true.
\<close>

type_synonym error = string

text \<open>The two kinds of file name passed to \<^verbatim>\<open>_getDescriptor\<close>: \<^verbatim>\<open>'_'\<close> and a collection index.\<close>

datatype fileid = MetaFile | CollectionFile nat

text \<open>A location \<^verbatim>\<open>Ti.Filesystem.getFile(ROOT, parent, name, file)\<close>; \<^verbatim>\<open>ROOT\<close> is a constant.\<close>

type_synonym path = "string \<times> string \<times> fileid"

datatype mode = MODE_READ | MODE_WRITE

text \<open>
  What the platform hands to the callback of \<^verbatim>\<open>stream.read(buffer, callback)\<close>:
  \<^verbatim>\<open>success\<close> with \<^verbatim>\<open>bytesProcessed\<close> and the bytes it copied into the buffer, or a
  failure with \<^verbatim>\<open>result.error\<close>.
\<close>

datatype read_result = ReadOk int string | ReadFail error

text \<open>
  Every request the adapter makes of \<^verbatim>\<open>Ti.Filesystem\<close> is recorded as an event; for a
  write the flag is \<^verbatim>\<open>result.success\<close>.
\<close>

datatype event =
    CreateDirectory string string
  | Exists path
  | ReadText path
  | Open path mode
  | Write path string bool
  | Read path read_result
  | Close path

record 'd collection =
  dirty :: bool
  data :: "'d list"

record 'd database =
  collections :: "'d collection list"

text \<open>
  The collaborators the adapter calls but does not define: \<^verbatim>\<open>JSON.stringify\<close>,
  \<^verbatim>\<open>JSON.parse\<close> (\<open>None\<close> when it throws), Loki's \<^verbatim>\<open>serialize\<close> and the
  \<^verbatim>\<open>JSON.parse\<close> of the metadata text, and the outcome of each asynchronous write and
  read: \<open>write_fault P p k = Some e\<close> says that the \<open>k\<close>-th write on a descriptor of
  \<open>p\<close> reports failure \<open>e\<close>, likewise \<open>read_fault\<close>. \<open>eof_fault\<close> says how a read
  at the end of the file is reported: \<open>None\<close> for success with \<^verbatim>\<open>bytesProcessed = -1\<close>,
  \<open>Some e\<close> for a failure. The platform also fixes the timing of the asynchronous
  completions: \<open>write_order\<close> lists the collections in the order in which their writers
  finish, and \<open>read_schedule\<close> says, turn by turn, which of the pending read callbacks
  runs next. Buffers are taken to hold one byte per character, so that
  \<^verbatim>\<open>Ti.createBuffer({ value })\<close> and \<^verbatim>\<open>buffer.toString()\<close> keep the text as it is.
\<close>

record 'd platform =
  JSON_stringify :: "'d \<Rightarrow> string"
  JSON_parse :: "string \<Rightarrow> 'd option"
  db_serialize :: "'d database \<Rightarrow> string"
  db_deserialize :: "string \<Rightarrow> 'd database option"
  write_fault :: "path \<Rightarrow> nat \<Rightarrow> error option"
  read_fault :: "path \<Rightarrow> nat \<Rightarrow> error option"
  eof_fault :: "error option"
  write_order :: "nat list"
  read_schedule :: "nat list"

text \<open>The adapter object: \<^verbatim>\<open>this.parent\<close>, \<^verbatim>\<open>this.reader.buffer\<close>, \<^verbatim>\<open>this.writer.batch\<close>.\<close>

record adapter =
  parent :: string
  reader_buffer :: nat
  writer_batch :: nat

record options =
  opt_parent :: "string option"
  opt_reader_buffer :: "nat option"
  opt_writer_batch :: "nat option"

text \<open>The constructor: \<^verbatim>\<open>x || default\<close> replaces a missing, empty or zero option.\<close>

definition constructor :: "options \<Rightarrow> adapter" where
  "constructor opts =
     \<lparr> parent = (case opt_parent opts of None \<Rightarrow> ''data''
                  | Some s \<Rightarrow> if s = [] then ''data'' else s),
       reader_buffer = (case opt_reader_buffer opts of None \<Rightarrow> 1024 * 1024
                  | Some n \<Rightarrow> if n = 0 then 1024 * 1024 else n),
       writer_batch = (case opt_writer_batch opts of None \<Rightarrow> 25
                  | Some n \<Rightarrow> if n = 0 then 25 else n) \<rparr>"

definition getDescriptor :: "adapter \<Rightarrow> string \<Rightarrow> fileid \<Rightarrow> path" where
  "getDescriptor A nm file = (parent A, nm, file)"

section \<open>The file system as a replay of the trace\<close>

text \<open>
  Opening in write mode creates or truncates the file and a successful write appends its
  payload; a failed write is taken to leave the file as it was. Nothing else changes a file.
\<close>

fun apply_event :: "event \<Rightarrow> (path \<rightharpoonup> string) \<Rightarrow> (path \<rightharpoonup> string)" where
  "apply_event (Open p MODE_WRITE) fs = fs(p \<mapsto> [])"
| "apply_event (Write p payload True) fs =
     fs(p \<mapsto> (case fs p of None \<Rightarrow> payload | Some c \<Rightarrow> c @ payload))"
| "apply_event _ fs = fs"

definition run_events :: "event list \<Rightarrow> (path \<rightharpoonup> string) \<Rightarrow> (path \<rightharpoonup> string)" where
  "run_events evs fs = fold apply_event evs fs"

fun event_path :: "event \<Rightarrow> path option" where
  "event_path (CreateDirectory par nm) = None"
| "event_path (Exists p) = Some p"
| "event_path (ReadText p) = Some p"
| "event_path (Open p m) = Some p"
| "event_path (Write p payload ok) = Some p"
| "event_path (Read p r) = Some p"
| "event_path (Close p) = Some p"

definition events_on :: "path \<Rightarrow> event list \<Rightarrow> event list" where
  "events_on p evs = filter (\<lambda>ev. event_path ev = Some p) evs"

fun is_write :: "event \<Rightarrow> bool" where
  "is_write (Write p payload ok) = True"
| "is_write _ = False"

fun payload_of :: "event \<Rightarrow> string" where
  "payload_of (Write p payload ok) = payload"
| "payload_of _ = []"

text \<open>The payloads of the write operations performed on \<open>p\<close>, in order.\<close>

definition writes_on :: "path \<Rightarrow> event list \<Rightarrow> string list" where
  "writes_on p evs = map payload_of (filter is_write (events_on p evs))"

section \<open>The line codec \<^verbatim>\<open>_chunk\<close>\<close>

text \<open>
  \<^verbatim>\<open>_chunk(initial, input, consumer)\<close>. The consumer's effect is a state transformer;
  the second component of the result is the returned string, or \<open>None\<close> when
  \<^verbatim>\<open>JSON.parse\<close> threw (what the consumer did before stays done).
\<close>

fun chunk_loop ::
  "(string \<Rightarrow> 'd option) \<Rightarrow> ('d \<Rightarrow> 's \<Rightarrow> 's) \<Rightarrow> string \<Rightarrow> string \<Rightarrow> 's \<Rightarrow> 's \<times> string option" where
  "chunk_loop prs consumer tmp [] st = (st, Some tmp)"
| "chunk_loop prs consumer tmp (byte # input) st =
     (if byte \<noteq> newline then chunk_loop prs consumer (tmp @ [byte]) input st
      else if length tmp = 0 then chunk_loop prs consumer tmp input st
      else (case prs tmp of
              None \<Rightarrow> (st, None)
            | Some entry \<Rightarrow> chunk_loop prs consumer [] input (consumer entry st)))"

definition chunk ::
  "(string \<Rightarrow> 'd option) \<Rightarrow> string \<Rightarrow> string \<Rightarrow> ('d \<Rightarrow> 's \<Rightarrow> 's) \<Rightarrow> 's \<Rightarrow> 's \<times> string option" where
  "chunk prs initial input consumer st = chunk_loop prs consumer initial input st"

text \<open>The consumer both call sites pass: \<^verbatim>\<open>collection.data.push(entry)\<close>.\<close>

definition push :: "'d \<Rightarrow> 'd list \<Rightarrow> 'd list" where
  "push entry ds = ds @ [entry]"

text \<open>
  Feeding consecutive chunks, each call's returned string being the next call's
  \<^verbatim>\<open>initial\<close>, as \<^verbatim>\<open>offset = _chunk(offset, bytes, ...)\<close> does; an exception ends the feeding.
\<close>

fun feed ::
  "(string \<Rightarrow> 'd option) \<Rightarrow> ('d \<Rightarrow> 's \<Rightarrow> 's) \<Rightarrow> string \<Rightarrow> string list \<Rightarrow> 's \<Rightarrow> 's \<times> string option" where
  "feed prs consumer pending [] st = (st, Some pending)"
| "feed prs consumer pending (c # cs) st =
     (case chunk prs pending c consumer st of
        (st', None) \<Rightarrow> (st', None)
      | (st', Some pending') \<Rightarrow> feed prs consumer pending' cs st')"

text \<open>
  The specification's reading of the codec: the input, seeded with the pending string, is
  cut at every newline into complete lines, the bytes after the last newline are the
  remainder, and the complete lines are emitted in order, blank ones skipped.
\<close>

fun complete_lines :: "string \<Rightarrow> string \<Rightarrow> string list" where
  "complete_lines cur [] = []"
| "complete_lines cur (c # cs) =
     (if c = newline then cur # complete_lines [] cs else complete_lines (cur @ [c]) cs)"

fun remainder :: "string \<Rightarrow> string \<Rightarrow> string" where
  "remainder cur [] = cur"
| "remainder cur (c # cs) = (if c = newline then remainder [] cs else remainder (cur @ [c]) cs)"

fun emit_lines ::
  "(string \<Rightarrow> 'd option) \<Rightarrow> ('d \<Rightarrow> 's \<Rightarrow> 's) \<Rightarrow> string list \<Rightarrow> 's \<Rightarrow> 's \<times> bool" where
  "emit_lines prs consumer [] st = (st, True)"
| "emit_lines prs consumer (l # ls) st =
     (if l = [] then emit_lines prs consumer ls st
      else (case prs l of
              None \<Rightarrow> (st, False)
            | Some entry \<Rightarrow> emit_lines prs consumer ls (consumer entry st)))"

section \<open>\<^verbatim>\<open>exportDatabase\<close>\<close>

definition descriptor_write :: "'d platform \<Rightarrow> path \<Rightarrow> nat \<Rightarrow> string \<Rightarrow> error option \<times> event" where
  "descriptor_write P p k payload =
     (case write_fault P p k of
        Some e \<Rightarrow> (Some e, Write p payload False)
      | None \<Rightarrow> (None, Write p payload True))"

text \<open>
  \<^verbatim>\<open>_write(cb)\<close>: the argument passed to \<^verbatim>\<open>cb\<close>, the new \<^verbatim>\<open>batch\<close>, the number of
  writes the descriptor has seen, and the events.
\<close>

definition batch_write ::
  "'d platform \<Rightarrow> path \<Rightarrow> string \<Rightarrow> nat \<Rightarrow> error option \<times> string \<times> nat \<times> event list" where
  "batch_write P p pending k =
     (if length pending = 0 then (None, pending, k, [])
      else (case descriptor_write P p k pending of
              (res, ev) \<Rightarrow> (res, [], Suc k, [ev])))"

text \<open>
  \<^verbatim>\<open>didx % this.writer.batch === 0\<close>; in JavaScript \<^verbatim>\<open>didx % 0\<close> is \<^verbatim>\<open>NaN\<close>, which is
  not \<^verbatim>\<open>0\<close>.
\<close>

definition flush_due :: "nat \<Rightarrow> nat \<Rightarrow> bool" where
  "flush_due didx b = (b \<noteq> 0 \<and> didx mod b = 0)"

text \<open>
  The \<^verbatim>\<open>async.eachSeries\<close> over \<^verbatim>\<open>collection.data\<close>: documents in order, stopping at
  the first error; the result is \<^verbatim>\<open>err1\<close> with the state left behind.
\<close>

fun write_documents ::
  "'d platform \<Rightarrow> nat \<Rightarrow> path \<Rightarrow> nat \<Rightarrow> 'd list \<Rightarrow> string \<Rightarrow> nat
     \<Rightarrow> error option \<times> string \<times> nat \<times> event list" where
  "write_documents P b p didx [] pending k = (None, pending, k, [])"
| "write_documents P b p didx (document # rest) pending k =
     (if flush_due didx b then
        (case batch_write P p (pending @ JSON_stringify P document @ [newline]) k of
           (Some e, pending', k', evs) \<Rightarrow> (Some e, pending', k', evs)
         | (None, pending', k', evs) \<Rightarrow>
             (case write_documents P b p (Suc didx) rest pending' k' of
                (res, pending'', k'', evs') \<Rightarrow> (res, pending'', k'', evs @ evs')))
      else write_documents P b p (Suc didx) rest
             (pending @ JSON_stringify P document @ [newline]) k)"

text \<open>
  The iterator of the \<^verbatim>\<open>async.each\<close> over the collections: the argument of
  \<^verbatim>\<open>cnext\<close>, that is \<^verbatim>\<open>err1 || err2 || undefined\<close>, and the events.
\<close>

definition export_collection ::
  "'d platform \<Rightarrow> adapter \<Rightarrow> string \<Rightarrow> nat \<Rightarrow> 'd collection \<Rightarrow> error option \<times> event list" where
  "export_collection P A nm cidx c =
     (if \<not> dirty c then (None, [])
      else
        (case write_documents P (writer_batch A) (getDescriptor A nm (CollectionFile cidx)) 0
                (data c) [] 0 of
           (err1, pending, k, evs1) \<Rightarrow>
             (case batch_write P (getDescriptor A nm (CollectionFile cidx)) pending k of
                (err2, pending', k', evs2) \<Rightarrow>
                  ((case err1 of Some e \<Rightarrow> Some e | None \<Rightarrow> err2),
                   Open (getDescriptor A nm (CollectionFile cidx)) MODE_WRITE # evs1 @ evs2
                     @ [Close (getDescriptor A nm (CollectionFile cidx))]))))"

text \<open>
  \<^verbatim>\<open>async.each\<close> starts the iterator on every element, whatever the others report; the
  requests on one file do not depend on those on another, and the trace lists them file
  by file.
\<close>

fun export_collections ::
  "'d platform \<Rightarrow> adapter \<Rightarrow> string \<Rightarrow> nat \<Rightarrow> 'd collection list \<Rightarrow> error option list \<times> event list" where
  "export_collections P A nm cidx [] = ([], [])"
| "export_collections P A nm cidx (c # cs) =
     (case export_collection P A nm cidx c of
        (out, evs) \<Rightarrow>
          (case export_collections P A nm (Suc cidx) cs of
             (outs, evs') \<Rightarrow> (out # outs, evs @ evs')))"

fun first_error :: "error option list \<Rightarrow> error option" where
  "first_error [] = None"
| "first_error (None # outs) = first_error outs"
| "first_error (Some e # outs) = Some e"

text \<open>
  The order in which the iterators call \<^verbatim>\<open>cnext\<close>: as the platform's \<open>write_order\<close>
  lists them, then the collections it does not list. The final callback of
  \<^verbatim>\<open>async.each\<close> gets the first error in that order.
\<close>

definition arrival :: "nat list \<Rightarrow> nat \<Rightarrow> nat list" where
  "arrival order n = filter (\<lambda>i. i < n) order @ filter (\<lambda>i. i \<notin> set order) [0..<n]"

definition cleared :: "'d database \<Rightarrow> 'd database" where
  "cleared database = database\<lparr>collections := map (\<lambda>c. c\<lparr>data := []\<rparr>) (collections database)\<rparr>"

text \<open>\<^verbatim>\<open>exportDatabase(name, database, callback)\<close>: the argument of \<^verbatim>\<open>callback\<close> and the events.\<close>

definition exportDatabase ::
  "'d platform \<Rightarrow> adapter \<Rightarrow> string \<Rightarrow> 'd database \<Rightarrow> error option \<times> event list" where
  "exportDatabase P A nm database =
     (case descriptor_write P (getDescriptor A nm MetaFile) 0 (db_serialize P (cleared database)) of
        (Some e, ev) \<Rightarrow>
          (Some e, [CreateDirectory (parent A) nm, Open (getDescriptor A nm MetaFile) MODE_WRITE, ev])
      | (None, ev) \<Rightarrow>
          (case export_collections P A nm 0 (collections database) of
             (outs, evs) \<Rightarrow>
               (first_error (map (\<lambda>i. outs ! i) (arrival (write_order P) (length outs))),
                [CreateDirectory (parent A) nm, Open (getDescriptor A nm MetaFile) MODE_WRITE, ev,
                 Close (getDescriptor A nm MetaFile)] @ evs)))"

section \<open>\<^verbatim>\<open>loadDatabase\<close>\<close>

text \<open>
  \<^verbatim>\<open>Ti.createBuffer({ length })\<close> is zero-filled; a read copies bytes to the front of the
  buffer; \<^verbatim>\<open>buffer.toString()\<close> is the whole buffer; \<^verbatim>\<open>buffer.clear()\<close> zeroes it and
  keeps its length.
\<close>

definition createBuffer :: "nat \<Rightarrow> string" where
  "createBuffer n = replicate n NUL"

definition buffer_store :: "string \<Rightarrow> string \<Rightarrow> string" where
  "buffer_store buf bytes = take (length buf) bytes @ drop (length bytes) buf"

definition buffer_clear :: "string \<Rightarrow> string" where
  "buffer_clear buf = replicate (length buf) NUL"

text \<open>The variables of one collection's iterator; \<open>loaded\<close> is \<^verbatim>\<open>collection.data\<close>.\<close>

record 'd reader =
  offset :: string
  buffer :: string
  parsed :: int
  loaded :: "'d list"

text \<open>
  How one collection's read ends: \<^verbatim>\<open>next\<close> is called with an error or with nothing, an
  exception escapes a read callback (\<^verbatim>\<open>next\<close> is never called), or \<^verbatim>\<open>open\<close> raises in
  the iterator itself.
\<close>

datatype outcome = Next "error option" | Threw | Raised

text \<open>\<^verbatim>\<open>_complete()\<close>.\<close>

definition complete :: "'d platform \<Rightarrow> path \<Rightarrow> 'd reader \<Rightarrow> outcome \<times> 'd list \<times> event list" where
  "complete P p r =
     (case chunk (JSON_parse P) [] (offset r) push (loaded r) of
        (ds, None) \<Rightarrow> (Threw, ds, [])
      | (ds, Some rest) \<Rightarrow> (Next None, ds, [Close p]))"

text \<open>
  The callback of \<^verbatim>\<open>stream.read\<close>: \<open>Inl\<close> is \<^verbatim>\<open>setTimeout(_read, 0)\<close> with the
  variables as they are then, \<open>Inr\<close> is the end of this collection's read.
\<close>

definition read_callback ::
  "'d platform \<Rightarrow> nat \<Rightarrow> path \<Rightarrow> read_result \<Rightarrow> 'd reader
     \<Rightarrow> 'd reader + outcome \<times> 'd list \<times> event list" where
  "read_callback P cap p result r =
     (case result of
        ReadFail e \<Rightarrow>
          Inr (if parsed r \<noteq> 0 then complete P p r else (Next (Some e), loaded r, []))
      | ReadOk n bytes \<Rightarrow>
          (case chunk (JSON_parse P) (offset r) (buffer_store (buffer r) bytes) push (loaded r) of
             (ds, None) \<Rightarrow> Inr (Threw, ds, [])
           | (ds, Some rest) \<Rightarrow>
               (if n = int cap
                then Inl \<lparr> offset = rest,
                           buffer = buffer_clear (buffer_store (buffer r) bytes),
                           parsed = n, loaded = ds \<rparr>
                else Inr (complete P p
                            \<lparr> offset = rest,
                              buffer = buffer_clear (buffer_store (buffer r) bytes),
                              parsed = n, loaded = ds \<rparr>))))"

definition eof_result :: "'d platform \<Rightarrow> read_result" where
  "eof_result P = (case eof_fault P of None \<Rightarrow> ReadOk (- 1) [] | Some e \<Rightarrow> ReadFail e)"

text \<open>
  A stream is the list of results the platform has yet to deliver; past its end every read
  is a read at the end of the file.
\<close>

fun stream_read :: "'d platform \<Rightarrow> read_result list \<Rightarrow> read_result \<times> read_result list" where
  "stream_read P [] = (eof_result P, [])"
| "stream_read P (x # xs) = (x, xs)"

lemma read_callback_eof: "read_callback P cap p (eof_result P) r \<noteq> Inl r'"
  by (simp add: read_callback_def eof_result_def split: option.splits prod.splits)

text \<open>\<^verbatim>\<open>_read()\<close>.\<close>

function read_loop ::
  "'d platform \<Rightarrow> nat \<Rightarrow> path \<Rightarrow> read_result list \<Rightarrow> 'd reader \<Rightarrow> outcome \<times> 'd list \<times> event list" where
  "read_loop P cap p results r =
     (case read_callback P cap p (fst (stream_read P results)) r of
        Inr (out, ds, evs) \<Rightarrow> (out, ds, Read p (fst (stream_read P results)) # evs)
      | Inl r' \<Rightarrow>
          (case read_loop P cap p (snd (stream_read P results)) r' of
             (out, ds, evs) \<Rightarrow> (out, ds, Read p (fst (stream_read P results)) # evs)))"
  by pat_completeness auto
termination
proof (relation "measure (\<lambda>(P, cap, p, results, r). length results)")
  show "wf (measure (\<lambda>(P, cap, p, results, r). length results))"
    by simp
next
  fix P :: "'d platform" and cap p results r r'
  assume "read_callback P cap p (fst (stream_read P results)) r = Inl r'"
  then have "results \<noteq> []"
    using read_callback_eof [of P cap p r r'] by (cases results) auto
  then show "((P, cap, p, snd (stream_read P results), r'), (P, cap, p, results, r))
      \<in> measure (\<lambda>(P, cap, p, results, r). length results)"
    by (cases results) auto
qed

declare read_loop.simps [simp del]

text \<open>
  What a file of the given content delivers to reads of \<open>cap\<close> bytes (\<open>cap\<close> is never
  \<open>0\<close>: the constructor replaces it), and the results with the platform's read faults.
\<close>

function file_reads :: "nat \<Rightarrow> string \<Rightarrow> read_result list" where
  "file_reads cap content =
     (if cap = 0 \<or> content = [] then []
      else ReadOk (int (length (take cap content))) (take cap content)
             # file_reads cap (drop cap content))"
  by pat_completeness auto
termination
  by (relation "measure (\<lambda>(cap, content). length content)") auto

declare file_reads.simps [simp del]

fun with_faults :: "(nat \<Rightarrow> error option) \<Rightarrow> nat \<Rightarrow> read_result list \<Rightarrow> read_result list" where
  "with_faults f k [] = (case f k of Some e \<Rightarrow> [ReadFail e] | None \<Rightarrow> [])"
| "with_faults f k (x # xs) =
     (case f k of Some e \<Rightarrow> [ReadFail e] | None \<Rightarrow> x # with_faults f (Suc k) xs)"

datatype 'd load_result = Undefined | Loaded "'d database" | NoCallback

fun is_error :: "outcome \<Rightarrow> bool" where
  "is_error (Next (Some e)) = True"
| "is_error _ = False"

text \<open>
  One collection during the load: its iterator has opened the stream and the reads go on,
  with the results still to come and the iterator's variables; or its read has ended; or its
  iterator never ran. The documents are those of \<^verbatim>\<open>collection.data\<close> at that moment.
\<close>

datatype 'd slot =
    Reading path "read_result list" "'d reader"
  | Settled outcome "'d list"
  | Unstarted "'d list"

fun is_reading :: "'d slot \<Rightarrow> bool" where
  "is_reading (Reading p rs r) = True"
| "is_reading (Settled out ds) = False"
| "is_reading (Unstarted ds) = False"

fun slot_data :: "'d slot \<Rightarrow> 'd list" where
  "slot_data (Reading p rs r) = loaded r"
| "slot_data (Settled out ds) = ds"
| "slot_data (Unstarted ds) = ds"

fun failed :: "'d slot \<Rightarrow> bool" where
  "failed (Reading p rs r) = False"
| "failed (Settled out ds) = is_error out"
| "failed (Unstarted ds) = False"

fun settled_ok :: "'d slot \<Rightarrow> bool" where
  "settled_ok (Reading p rs r) = False"
| "settled_ok (Settled out ds) = (out = Next None)"
| "settled_ok (Unstarted ds) = False"

fun slot_size :: "'d slot \<Rightarrow> nat" where
  "slot_size (Reading p rs r) = Suc (length rs)"
| "slot_size (Settled out ds) = 0"
| "slot_size (Unstarted ds) = 0"

text \<open>
  \<^verbatim>\<open>async.each\<close> runs the iterators in the order of the collections, each up to its first
  \<^verbatim>\<open>stream.read\<close>: the descriptor, the variables, the open. Opening a file that does not
  exist for reading is taken to raise; the exception leaves \<^verbatim>\<open>async.each\<close>, and the
  iterators of the collections after it never run.
\<close>

fun start_collections ::
  "'d platform \<Rightarrow> adapter \<Rightarrow> string \<Rightarrow> nat \<Rightarrow> 'd collection list \<Rightarrow> (path \<rightharpoonup> string)
     \<Rightarrow> 'd slot list \<times> event list" where
  "start_collections P A nm cidx [] fs = ([], [])"
| "start_collections P A nm cidx (c # cs) fs =
     (case fs (getDescriptor A nm (CollectionFile cidx)) of
        None \<Rightarrow>
          (Settled Raised (data c) # map (\<lambda>c'. Unstarted (data c')) cs,
           [Open (getDescriptor A nm (CollectionFile cidx)) MODE_READ])
      | Some content \<Rightarrow>
          (case start_collections P A nm (Suc cidx) cs fs of
             (slots, evs) \<Rightarrow>
               (Reading (getDescriptor A nm (CollectionFile cidx))
                  (with_faults (read_fault P (getDescriptor A nm (CollectionFile cidx))) 0
                     (file_reads (reader_buffer A) content))
                  \<lparr> offset = [], buffer = createBuffer (reader_buffer A), parsed = 0,
                    loaded = data c \<rparr>
                  # slots,
                Open (getDescriptor A nm (CollectionFile cidx)) MODE_READ # evs)))"

text \<open>One read callback of a collection that is reading.\<close>

fun deliver :: "'d platform \<Rightarrow> nat \<Rightarrow> 'd slot \<Rightarrow> 'd slot \<times> event list" where
  "deliver P cap (Reading p rs r) =
     (case read_callback P cap p (fst (stream_read P rs)) r of
        Inl r' \<Rightarrow> (Reading p (snd (stream_read P rs)) r', [Read p (fst (stream_read P rs))])
      | Inr (out, ds, evs) \<Rightarrow> (Settled out ds, Read p (fst (stream_read P rs)) # evs))"
| "deliver P cap (Settled out ds) = (Settled out ds, [])"
| "deliver P cap (Unstarted ds) = (Unstarted ds, [])"

text \<open>The collections whose reads go on, and the one the schedule gives the next turn.\<close>

definition running :: "'d slot list \<Rightarrow> nat list" where
  "running slots = filter (\<lambda>i. is_reading (slots ! i)) [0..<length slots]"

definition pick :: "nat list \<Rightarrow> nat list \<Rightarrow> nat" where
  "pick sched rs = rs ! (case sched of [] \<Rightarrow> 0 | s # rest \<Rightarrow> s mod length rs)"

text \<open>
  One turn: the read callback of the chosen collection runs. If it calls \<^verbatim>\<open>next\<close> with an
  error and the final function of the \<^verbatim>\<open>async.each\<close> has not run yet, that function runs
  now, and the caller's callback sees the documents every collection holds at this moment.
\<close>

definition turn ::
  "'d platform \<Rightarrow> nat \<Rightarrow> nat list \<Rightarrow> 'd slot list \<Rightarrow> 'd list list option
     \<Rightarrow> 'd slot list \<times> 'd list list option \<times> event list" where
  "turn P cap sched slots fired =
     (slots[pick sched (running slots) := fst (deliver P cap (slots ! pick sched (running slots)))],
      (case fired of
         Some snapshot \<Rightarrow> Some snapshot
       | None \<Rightarrow>
           if failed (fst (deliver P cap (slots ! pick sched (running slots))))
           then Some (map slot_data
                  (slots[pick sched (running slots)
                     := fst (deliver P cap (slots ! pick sched (running slots)))]))
           else None),
      snd (deliver P cap (slots ! pick sched (running slots))))"

lemma pick_running:
  assumes "running slots \<noteq> []"
  shows "pick sched (running slots) < length slots"
    and "is_reading (slots ! pick sched (running slots))"
proof -
  have "(case sched of [] \<Rightarrow> 0 | s # rest \<Rightarrow> s mod length (running slots)) < length (running slots)"
    using assms by (cases sched) simp_all
  then have "pick sched (running slots) \<in> set (running slots)"
    unfolding pick_def by (rule nth_mem)
  then show "pick sched (running slots) < length slots"
    and "is_reading (slots ! pick sched (running slots))"
    by (simp_all add: running_def)
qed

lemma deliver_smaller: "is_reading s \<Longrightarrow> slot_size (fst (deliver P cap s)) < slot_size s"
proof (cases s)
  case (Reading p rs r)
  show ?thesis
  proof (cases "read_callback P cap p (fst (stream_read P rs)) r")
    case (Inl r')
    then have "rs \<noteq> []"
      using read_callback_eof [of P cap p r r'] by (cases rs) auto
    with Inl Reading show ?thesis
      by (cases rs) simp_all
  next
    case (Inr x)
    with Reading show ?thesis
      by (simp add: case_prod_beta)
  qed
qed simp_all

lemma sum_list_update_less:
  "k < length xs \<Longrightarrow> f y < f (xs ! k) \<Longrightarrow>
     sum_list (map f (xs[k := y])) < sum_list (map f xs)" for f :: "'a \<Rightarrow> nat"
proof (induction xs arbitrary: k)
  case Nil
  then show ?case by simp
next
  case (Cons x xs)
  then show ?case
    by (cases k) auto
qed

text \<open>
  The read callbacks, turn by turn, until no read is pending: the snapshot the caller's
  callback saw if an error called it, the collections at the end, and the events.
\<close>

function run_reads ::
  "'d platform \<Rightarrow> nat \<Rightarrow> nat list \<Rightarrow> 'd slot list \<Rightarrow> 'd list list option
     \<Rightarrow> 'd list list option \<times> 'd slot list \<times> event list" where
  "run_reads P cap sched slots fired =
     (if running slots = [] then (fired, slots, [])
      else
        (case run_reads P cap (tl sched) (fst (turn P cap sched slots fired))
                (fst (snd (turn P cap sched slots fired))) of
           (fired', final, evs) \<Rightarrow>
             (fired', final, snd (snd (turn P cap sched slots fired)) @ evs)))"
  by pat_completeness auto
termination
proof (relation "measure (\<lambda>(P, cap, sched, slots, fired). sum_list (map slot_size slots))")
  show "wf (measure (\<lambda>(P, cap, sched, slots, fired). sum_list (map slot_size slots)))"
    by simp
next
  fix P :: "'d platform" and cap sched and slots :: "'d slot list" and fired :: "'d list list option"
  assume "running slots \<noteq> []"
  then have "sum_list (map slot_size (fst (turn P cap sched slots fired)))
      < sum_list (map slot_size slots)"
    unfolding turn_def fst_conv
    by (intro sum_list_update_less pick_running deliver_smaller)
  then show "((P, cap, tl sched, fst (turn P cap sched slots fired),
        fst (snd (turn P cap sched slots fired))), (P, cap, sched, slots, fired))
      \<in> measure (\<lambda>(P, cap, sched, slots, fired). sum_list (map slot_size slots))"
    by simp
qed

declare run_reads.simps [simp del]

definition with_data :: "'d database \<Rightarrow> 'd list list \<Rightarrow> 'd database" where
  "with_data database dss =
     database\<lparr>collections := map (\<lambda>(c, ds). c\<lparr>data := ds\<rparr>) (zip (collections database) dss)\<rparr>"

text \<open>
  The final function of the \<^verbatim>\<open>async.each\<close>, \<^verbatim>\<open>function () { callback(database); }\<close>: it
  takes no argument and runs once, at the first \<^verbatim>\<open>next\<close> called with an error, or else when
  every iterator has called \<^verbatim>\<open>next\<close>; the caller's callback gets the database as it is
  then. If neither happens the callback is never called.
\<close>

definition each_done :: "'d database \<Rightarrow> 'd list list option \<Rightarrow> 'd slot list \<Rightarrow> 'd load_result" where
  "each_done database fired final =
     (case fired of
        Some snapshot \<Rightarrow> Loaded (with_data database snapshot)
      | None \<Rightarrow>
          if list_all settled_ok final then Loaded (with_data database (map slot_data final))
          else NoCallback)"

text \<open>
  \<^verbatim>\<open>loadDatabase(name, callback)\<close>: what the caller's callback gets, and all the events.
\<close>

definition loadDatabase ::
  "'d platform \<Rightarrow> adapter \<Rightarrow> string \<Rightarrow> (path \<rightharpoonup> string) \<Rightarrow> 'd load_result \<times> event list" where
  "loadDatabase P A nm fs =
     (case fs (getDescriptor A nm MetaFile) of
        None \<Rightarrow> (Undefined, [Exists (getDescriptor A nm MetaFile)])
      | Some blob \<Rightarrow>
          (case db_deserialize P blob of
             None \<Rightarrow> (NoCallback, [Exists (getDescriptor A nm MetaFile),
                                   ReadText (getDescriptor A nm MetaFile)])
           | Some database \<Rightarrow>
               (case start_collections P A nm 0 (collections database) fs of
                  (slots, evs) \<Rightarrow>
                    (case run_reads P (reader_buffer A) (read_schedule P) slots None of
                       (fired, final, evs') \<Rightarrow>
                         (each_done database fired final,
                          [Exists (getDescriptor A nm MetaFile),
                           ReadText (getDescriptor A nm MetaFile)] @ evs @ evs')))))"


fun bytes_of :: "read_result \<Rightarrow> string" where
  "bytes_of (ReadOk n bytes) = bytes"
| "bytes_of (ReadFail e) = []"

section \<open>The persisted representation and a small instance\<close>

text \<open>The content of a collection file: one serialized document per line.\<close>

definition lines_of :: "'d platform \<Rightarrow> 'd list \<Rightarrow> string" where
  "lines_of P docs = concat (map (\<lambda>d. JSON_stringify P d @ [newline]) docs)"


text \<open>
  An instance for concrete runs: the documents are the JSON values \<^verbatim>\<open>true\<close> and
  \<^verbatim>\<open>false\<close>, and the metadata text holds one flag per collection.
\<close>

definition bool_stringify :: "bool \<Rightarrow> string" where
  "bool_stringify b = (if b then ''true'' else ''false'')"

definition bool_parse :: "string \<Rightarrow> bool option" where
  "bool_parse s =
     (if s = ''true'' then Some True else if s = ''false'' then Some False else None)"

definition flags_serialize :: "bool database \<Rightarrow> string" where
  "flags_serialize database =
     map (\<lambda>c. if dirty c then CHR ''1'' else CHR ''0'') (collections database)"

definition flags_deserialize :: "string \<Rightarrow> bool database option" where
  "flags_deserialize s =
     (if list_all (\<lambda>ch. ch = CHR ''0'' \<or> ch = CHR ''1'') s
      then Some \<lparr> collections = map (\<lambda>ch. \<lparr> dirty = (ch = CHR ''1''), data = [] \<rparr>) s \<rparr>
      else None)"

definition sample_platform :: "bool platform" where
  "sample_platform =
     \<lparr> JSON_stringify = bool_stringify, JSON_parse = bool_parse,
       db_serialize = flags_serialize, db_deserialize = flags_deserialize,
       write_fault = (\<lambda>p k. None), read_fault = (\<lambda>p k. None), eof_fault = None,
       write_order = [], read_schedule = [] \<rparr>"

definition sample_adapter :: adapter where
  "sample_adapter =
     constructor \<lparr> opt_parent = None, opt_reader_buffer = Some 5, opt_writer_batch = Some 2 \<rparr>"

definition default_adapter :: adapter where
  "default_adapter =
     constructor \<lparr> opt_parent = None, opt_reader_buffer = None, opt_writer_batch = None \<rparr>"

definition sample_database :: "bool database" where
  "sample_database =
     \<lparr> collections = [\<lparr> dirty = True, data = [True, False, True] \<rparr>,
                      \<lparr> dirty = True, data = [] \<rparr>] \<rparr>"

definition mixed_database :: "bool database" where
  "mixed_database =
     \<lparr> collections = [\<lparr> dirty = True, data = [True, False, True] \<rparr>,
                      \<lparr> dirty = False, data = [False] \<rparr>] \<rparr>"

text \<open>The same platform, on which the second write to collection \<open>0\<close> of \<^verbatim>\<open>db\<close> fails.\<close>

definition failing_platform :: "bool platform" where
  "failing_platform =
     sample_platform
       \<lparr> write_fault :=
           (\<lambda>p k. if p = (''data'', ''db'', CollectionFile 0) \<and> k = 1 then Some ''EIO'' else None) \<rparr>"

text \<open>The same platform, on which the metadata write of \<^verbatim>\<open>db\<close> fails.\<close>

definition meta_failing_platform :: "bool platform" where
  "meta_failing_platform =
     sample_platform
       \<lparr> write_fault :=
           (\<lambda>p k. if p = (''data'', ''db'', MetaFile) then Some ''EIO'' else None) \<rparr>"

text \<open>The same platform, on which read number \<open>n\<close> of collection \<open>0\<close> of \<^verbatim>\<open>db\<close> fails.\<close>

definition read_failing_platform :: "nat \<Rightarrow> bool platform" where
  "read_failing_platform n =
     sample_platform
       \<lparr> read_fault :=
           (\<lambda>p k. if p = (''data'', ''db'', CollectionFile 0) \<and> k = n then Some ''EIO'' else None) \<rparr>"

text \<open>The files of \<open>sample_database\<close>, stored as \<^verbatim>\<open>db\<close>.\<close>

definition sample_files :: "path \<rightharpoonup> string" where
  "sample_files =
     [(''data'', ''db'', MetaFile) \<mapsto> ''11'',
      (''data'', ''db'', CollectionFile 0) \<mapsto> lines_of sample_platform [True, False, True],
      (''data'', ''db'', CollectionFile 1) \<mapsto> []]"

definition batch_database :: "bool database" where
  "batch_database = \<lparr> collections = [\<lparr> dirty = True, data = replicate 101 True \<rparr>] \<rparr>"

section \<open>Properties of the line codec\<close>

lemma chunk_loop_append:
  "chunk_loop prs consumer tmp (a @ b) st =
     (case chunk_loop prs consumer tmp a st of
        (st', None) \<Rightarrow> (st', None)
      | (st', Some t) \<Rightarrow> chunk_loop prs consumer t b st')"
  by (induction a arbitrary: tmp st) (auto split: option.splits)

lemma feed_concat:
  "feed prs consumer pending cs st = chunk_loop prs consumer pending (concat cs) st"
proof (induction cs arbitrary: pending st)
  case Nil
  show ?case by simp
next
  case (Cons c cs)
  show ?case
  proof (cases "chunk_loop prs consumer pending c st")
    case (Pair st' res)
    then show ?thesis
      using Cons.IH by (cases res) (simp_all add: chunk_def chunk_loop_append)
  qed
qed

lemma chunk_loop_lines:
  "chunk_loop prs consumer tmp input st =
     (case emit_lines prs consumer (complete_lines tmp input) st of
        (st', True) \<Rightarrow> (st', Some (remainder tmp input))
      | (st', False) \<Rightarrow> (st', None))"
  by (induction input arbitrary: tmp st) (auto split: option.splits)

lemma remainder_no_newline:
  "newline \<notin> set tmp \<Longrightarrow> newline \<notin> set (remainder tmp input)"
  by (induction input arbitrary: tmp) auto

lemma chunk_loop_no_newline:
  "newline \<notin> set tmp \<Longrightarrow> chunk_loop prs consumer tmp input st = (st', Some rest)
     \<Longrightarrow> newline \<notin> set rest"
  by (auto simp: chunk_loop_lines remainder_no_newline split: prod.splits bool.splits)

text \<open>Bytes without a newline are only accumulated.\<close>

lemma chunk_loop_plain:
  "newline \<notin> set s \<Longrightarrow> chunk_loop prs consumer tmp s st = (st, Some (tmp @ s))"
  by (induction s arbitrary: tmp) auto

section \<open>The claims about the line codec\<close>

text \<open>
  Claim C2. Feeding the chunks of any split of an input one at a time, each call's returned
  string being the next call's pending string and the first pending string being empty,
  has the same effect on the consumer (the same documents in the same order, and the same
  exception if a line fails to parse) and leaves the same pending string as one call of
  \<^verbatim>\<open>_chunk\<close> on the whole input.
\<close>

theorem chunk_boundary_independence:
  "feed prs consumer [] chunks st = chunk prs [] (concat chunks) consumer st"
  by (simp add: feed_concat chunk_def)

theorem chunk_boundary_independence_witness:
  "feed bool_parse push [] [''tr'', ''ue'' @ [newline] @ ''fal'', ''se'' @ [newline]] []
     = chunk bool_parse [] (concat [''tr'', ''ue'' @ [newline] @ ''fal'', ''se'' @ [newline]]) push []"
  by (rule chunk_boundary_independence)

text \<open>
  The complete lines, each with its newline, followed by the remainder are the pending
  string followed by the input, and no complete line holds a newline.
\<close>

lemma complete_lines_join:
  "concat (map (\<lambda>l. l @ [newline]) (complete_lines cur s)) @ remainder cur s = cur @ s"
  by (induction s arbitrary: cur) auto

lemma complete_lines_plain:
  "newline \<notin> set cur \<Longrightarrow> l \<in> set (complete_lines cur s) \<Longrightarrow> newline \<notin> set l"
proof (induction s arbitrary: cur)
  case Nil
  then show ?case by simp
next
  case (Cons c s)
  show ?case
  proof (cases "c = newline")
    case True
    with Cons.prems have "l = cur \<or> l \<in> set (complete_lines [] s)" by simp
    then show ?thesis
      using Cons.prems(1) Cons.IH [of "[]"] by auto
  next
    case False
    with Cons.prems have "l \<in> set (complete_lines (cur @ [c]) s)" by simp
    then show ?thesis
      using Cons.prems(1) False Cons.IH [of "cur @ [c]"] by simp
  qed
qed

text \<open>
  Claim C9. When the pending string holds no newline, \<^verbatim>\<open>_chunk\<close> does what the
  specification says of the codec. The pending string followed by the input is cut into
  its newline-terminated lines and the bytes after the last newline; \<^verbatim>\<open>_chunk\<close> emits
  the lines in order within this call, skipping the blank ones and stopping at a line that
  fails to parse, and returns those last bytes. So the returned string holds no newline,
  and a newline met with an empty working buffer emits nothing.
\<close>

theorem pending_holds_no_line:
  assumes "newline \<notin> set pending"
  shows "chunk prs pending input consumer st =
           (case emit_lines prs consumer (complete_lines pending input) st of
              (st', True) \<Rightarrow> (st', Some (remainder pending input))
            | (st', False) \<Rightarrow> (st', None))
    \<and> concat (map (\<lambda>l. l @ [newline]) (complete_lines pending input)) @ remainder pending input
        = pending @ input
    \<and> (\<forall>l \<in> set (complete_lines pending input). newline \<notin> set l)
    \<and> (\<forall>st' rest. chunk prs pending input consumer st = (st', Some rest)
          \<longrightarrow> newline \<notin> set rest)
    \<and> chunk prs [] (newline # input) consumer st = chunk prs [] input consumer st"
proof (intro conjI allI impI ballI)
  show "chunk prs pending input consumer st =
           (case emit_lines prs consumer (complete_lines pending input) st of
              (st', True) \<Rightarrow> (st', Some (remainder pending input))
            | (st', False) \<Rightarrow> (st', None))"
    unfolding chunk_def by (rule chunk_loop_lines)
next
  show "concat (map (\<lambda>l. l @ [newline]) (complete_lines pending input)) @ remainder pending input
        = pending @ input"
    by (rule complete_lines_join)
next
  fix l
  assume "l \<in> set (complete_lines pending input)"
  with assms show "newline \<notin> set l"
    by (rule complete_lines_plain)
next
  fix st' rest
  assume "chunk prs pending input consumer st = (st', Some rest)"
  with assms show "newline \<notin> set rest"
    unfolding chunk_def by (rule chunk_loop_no_newline)
next
  show "chunk prs [] (newline # input) consumer st = chunk prs [] input consumer st"
    by (simp add: chunk_def)
qed

theorem pending_holds_no_line_witness:
  "newline \<notin> set ''tr''
   \<and> chunk bool_parse ''tr'' (''ue'' @ [newline, newline] @ ''false'' @ [newline] @ ''fa'') push []
       = ([True, False], Some ''fa'')
   \<and> newline \<notin> set ''fa''"
proof -
  have h: "newline \<notin> set ''tr''"
    by simp
  have run: "chunk bool_parse ''tr'' (''ue'' @ [newline, newline] @ ''false'' @ [newline] @ ''fa'')
      push [] = ([True, False], Some ''fa'')"
    by (simp add: chunk_def bool_parse_def push_def)
  have "newline \<notin> set ''fa''"
    using pending_holds_no_line [OF h, of bool_parse
        "''ue'' @ [newline, newline] @ ''false'' @ [newline] @ ''fa''" push "[]"] run
    by blast
  with h run show ?thesis
    by (iprover intro: conjI)
qed

section \<open>Evaluating concrete runs\<close>

lemmas sample_defs =
  sample_platform_def failing_platform_def sample_adapter_def default_adapter_def
  sample_database_def mixed_database_def constructor_def getDescriptor_def
  bool_stringify_def bool_parse_def flags_serialize_def flags_deserialize_def

lemmas export_defs =
  exportDatabase_def export_collection_def batch_write_def descriptor_write_def
  flush_due_def cleared_def events_on_def writes_on_def run_events_def

section \<open>Traces and the files they leave\<close>


lemma apply_event_other: "event_path ev \<noteq> Some p \<Longrightarrow> apply_event ev fs p = fs p"
  by (cases "(ev, fs)" rule: apply_event.cases) auto

lemma apply_event_local: "fs p = fs' p \<Longrightarrow> event_path ev = Some p \<Longrightarrow> apply_event ev fs p = apply_event ev fs' p"
  by (cases "(ev, fs)" rule: apply_event.cases) auto

lemma run_events_on_gen:
  "fs p = fs' p \<Longrightarrow> run_events evs fs p = run_events (events_on p evs) fs' p"
proof (induction evs arbitrary: fs fs')
  case Nil
  then show ?case by (simp add: run_events_def events_on_def)
next
  case (Cons ev evs)
  show ?case
  proof (cases "event_path ev = Some p")
    case True
    have "apply_event ev fs p = apply_event ev fs' p"
      using Cons.prems True by (rule apply_event_local)
    then have "run_events evs (apply_event ev fs) p
        = run_events (events_on p evs) (apply_event ev fs') p"
      by (rule Cons.IH)
    with True show ?thesis
      by (simp add: run_events_def events_on_def)
  next
    case False
    have "apply_event ev fs p = fs' p"
      using Cons.prems False by (simp add: apply_event_other)
    then have "run_events evs (apply_event ev fs) p = run_events (events_on p evs) fs' p"
      by (rule Cons.IH)
    with False show ?thesis
      by (simp add: run_events_def events_on_def)
  qed
qed

lemma run_events_on: "run_events evs fs p = run_events (events_on p evs) fs p"
  by (rule run_events_on_gen) simp


section \<open>The collection writer\<close>

text \<open>
  The requests of one \<^verbatim>\<open>async.eachSeries\<close>: writes that succeeded, then at most one that
  failed, after which the batch is empty and nothing more is written.
\<close>

lemma batch_write_cases:
  "batch_write P p pending k = (res, pending', k', evs) \<Longrightarrow>
     (pending = [] \<and> res = None \<and> pending' = [] \<and> k' = k \<and> evs = [])
   \<or> (pending \<noteq> [] \<and> res = write_fault P p k \<and> pending' = [] \<and> k' = Suc k
        \<and> evs = [Write p pending (res = None)])"
  by (auto simp: batch_write_def descriptor_write_def split: if_splits option.splits)

lemma write_documents_shape:
  "write_documents P b p didx docs pending k = (res, pending', k', evs) \<Longrightarrow>
     \<exists>pl. k' = k + length pl + (if res = None then 0 else 1)
       \<and> (\<forall>j < length pl. write_fault P p (k + j) = None)
       \<and> (case res of
             None \<Rightarrow> evs = map (\<lambda>d. Write p d True) pl
           | Some e \<Rightarrow> pending' = [] \<and> write_fault P p (k + length pl) = Some e
               \<and> (\<exists>d. evs = map (\<lambda>d. Write p d True) pl @ [Write p d False]))"
proof (induction docs arbitrary: didx pending k res pending' k' evs)
  case Nil
  then show ?case by (intro exI [of _ "[]"]) simp
next
  case (Cons document rest)
  let ?buf = "pending @ JSON_stringify P document @ [newline]"
  show ?case
  proof (cases "flush_due didx b")
    case False
    with Cons.prems have "write_documents P b p (Suc didx) rest ?buf k = (res, pending', k', evs)"
      by simp
    from Cons.IH [OF this] show ?thesis .
  next
    case True
    obtain r1 p1 k1 e1 where bw: "batch_write P p ?buf k = (r1, p1, k1, e1)"
      by (cases "batch_write P p ?buf k") auto
    from batch_write_cases [OF bw]
    have bwc: "r1 = write_fault P p k" "p1 = []" "k1 = Suc k" "e1 = [Write p ?buf (r1 = None)]"
      by auto
    show ?thesis
    proof (cases r1)
      case (Some e)
      with Cons.prems True bw have "res = Some e" "pending' = p1" "k' = k1" "evs = e1"
        by auto
      moreover have "write_fault P p k = Some e"
        using bwc(1) Some by simp
      ultimately show ?thesis
        using bwc by (intro exI [of _ "[]"]) simp
    next
      case None
      obtain r2 p2 k2 e2 where rec: "write_documents P b p (Suc didx) rest p1 k1 = (r2, p2, k2, e2)"
        by (cases "write_documents P b p (Suc didx) rest p1 k1") auto
      with Cons.prems True bw None have eqs: "res = r2" "pending' = p2" "k' = k2" "evs = e1 @ e2"
        by auto
      from Cons.IH [OF rec] obtain pl where pl:
        "k2 = k1 + length pl + (if r2 = None then 0 else 1)"
        "\<forall>j < length pl. write_fault P p (k1 + j) = None"
        "(case r2 of
             None \<Rightarrow> e2 = map (\<lambda>d. Write p d True) pl
           | Some e \<Rightarrow> p2 = [] \<and> write_fault P p (k1 + length pl) = Some e
               \<and> (\<exists>d. e2 = map (\<lambda>d. Write p d True) pl @ [Write p d False]))"
        by blast
      have faults: "\<forall>j < length (?buf # pl). write_fault P p (k + j) = None"
      proof (intro allI impI)
        fix j assume "j < length (?buf # pl)"
        then show "write_fault P p (k + j) = None"
          using pl(2) bwc None by (cases j) auto
      qed
      show ?thesis
        using pl(1,3) faults eqs bwc None
        by (intro exI [of _ "?buf # pl"]) (auto split: option.splits)
    qed
  qed
qed

text \<open>What has been written and what is still pending make up the lines so far.\<close>

lemma write_documents_payloads:
  "write_documents P b p didx docs pending k = (None, pending', k', evs) \<Longrightarrow>
     concat (map payload_of evs) @ pending' = pending @ lines_of P docs"
proof (induction docs arbitrary: didx pending k pending' k' evs)
  case Nil
  then show ?case by (simp add: lines_of_def)
next
  case (Cons document rest)
  let ?buf = "pending @ JSON_stringify P document @ [newline]"
  have lines: "lines_of P (document # rest) = JSON_stringify P document @ [newline] @ lines_of P rest"
    by (simp add: lines_of_def)
  show ?case
  proof (cases "flush_due didx b")
    case False
    with Cons.prems have "write_documents P b p (Suc didx) rest ?buf k = (None, pending', k', evs)"
      by simp
    from Cons.IH [OF this] show ?thesis by (simp add: lines)
  next
    case True
    obtain r1 p1 k1 e1 where bw: "batch_write P p ?buf k = (r1, p1, k1, e1)"
      by (cases "batch_write P p ?buf k") auto
    obtain r2 p2 k2 e2 where rec: "write_documents P b p (Suc didx) rest p1 k1 = (r2, p2, k2, e2)"
      by (cases "write_documents P b p (Suc didx) rest p1 k1") auto
    from Cons.prems True bw rec have r1: "r1 = None"
      by (cases r1) auto
    with Cons.prems True bw rec have eqs: "r2 = None" "pending' = p2" "evs = e1 @ e2"
      by auto
    from batch_write_cases [OF bw] r1 have bwc: "p1 = []" "e1 = [Write p ?buf True]"
      by auto
    from Cons.IH [of "Suc didx" p1 k1 p2 k2 e2] rec eqs
    have "concat (map payload_of e2) @ p2 = p1 @ lines_of P rest"
      by simp
    with eqs bwc show ?thesis by (simp add: lines)
  qed
qed

lemma payload_of_ok_writes: "map (payload_of \<circ> (\<lambda>d. Write p d True)) pl = pl"
  by (induction pl) auto

text \<open>
  The two ways the export of a dirty collection ends: every write succeeded and the file
  holds the collection's lines, or a write failed and the close follows it at once.
\<close>

lemma export_collection_cases:
  assumes "dirty c"
  shows "\<exists>pl. (\<forall>j < length pl. write_fault P (getDescriptor A nm (CollectionFile i)) j = None)
     \<and> ((export_collection P A nm i c =
            (None, Open (getDescriptor A nm (CollectionFile i)) MODE_WRITE
               # map (\<lambda>d. Write (getDescriptor A nm (CollectionFile i)) d True) pl
               @ [Close (getDescriptor A nm (CollectionFile i))])
          \<and> concat pl = lines_of P (data c))
        \<or> (\<exists>e d. write_fault P (getDescriptor A nm (CollectionFile i)) (length pl) = Some e
             \<and> export_collection P A nm i c =
                 (Some e, Open (getDescriptor A nm (CollectionFile i)) MODE_WRITE
                    # map (\<lambda>d. Write (getDescriptor A nm (CollectionFile i)) d True) pl
                    @ [Write (getDescriptor A nm (CollectionFile i)) d False,
                       Close (getDescriptor A nm (CollectionFile i))])))"
proof -
  let ?p = "getDescriptor A nm (CollectionFile i)"
  obtain r1 p1 k1 e1 where wd: "write_documents P (writer_batch A) ?p 0 (data c) [] 0 = (r1, p1, k1, e1)"
    by (cases "write_documents P (writer_batch A) ?p 0 (data c) [] 0") auto
  obtain r2 p2 k2 e2 where bw: "batch_write P ?p p1 k1 = (r2, p2, k2, e2)"
    by (cases "batch_write P ?p p1 k1") auto
  have ec: "export_collection P A nm i c =
      ((case r1 of Some e \<Rightarrow> Some e | None \<Rightarrow> r2), Open ?p MODE_WRITE # e1 @ e2 @ [Close ?p])"
    using assms wd bw by (simp add: export_collection_def)
  from write_documents_shape [OF wd] obtain pl where pl0:
    "k1 = 0 + length pl + (if r1 = None then 0 else 1)"
    "\<forall>j < length pl. write_fault P ?p (0 + j) = None"
    "(case r1 of
         None \<Rightarrow> e1 = map (\<lambda>d. Write ?p d True) pl
       | Some e \<Rightarrow> p1 = [] \<and> write_fault P ?p (0 + length pl) = Some e
           \<and> (\<exists>d. e1 = map (\<lambda>d. Write ?p d True) pl @ [Write ?p d False]))"
    by blast
  then have pl:
    "k1 = length pl + (if r1 = None then 0 else 1)"
    "\<forall>j < length pl. write_fault P ?p j = None"
    "(case r1 of
         None \<Rightarrow> e1 = map (\<lambda>d. Write ?p d True) pl
       | Some e \<Rightarrow> p1 = [] \<and> write_fault P ?p (length pl) = Some e
           \<and> (\<exists>d. e1 = map (\<lambda>d. Write ?p d True) pl @ [Write ?p d False]))"
    by (simp_all split: option.splits)
  show ?thesis
  proof (cases r1)
    case (Some e)
    with pl(3) obtain d where d: "p1 = []" "write_fault P ?p (length pl) = Some e"
      "e1 = map (\<lambda>d. Write ?p d True) pl @ [Write ?p d False]"
      by auto
    from batch_write_cases [OF bw] d(1) have "e2 = []" by auto
    with ec Some d pl(2) show ?thesis
      by (intro exI [of _ pl]) auto
  next
    case None
    with pl have e1: "e1 = map (\<lambda>d. Write ?p d True) pl" and k1: "k1 = length pl"
      by auto
    from write_documents_payloads [of P "writer_batch A" ?p 0 "data c" "[]" 0 p1 k1 e1] wd None
    have content: "concat pl @ p1 = lines_of P (data c)"
      by (simp add: e1 payload_of_ok_writes)
    from batch_write_cases [OF bw] show ?thesis
    proof
      assume "p1 = [] \<and> r2 = None \<and> p2 = [] \<and> k2 = k1 \<and> e2 = []"
      with ec None e1 content pl(2) show ?thesis
        by (intro exI [of _ pl]) auto
    next
      assume a: "p1 \<noteq> [] \<and> r2 = write_fault P ?p k1 \<and> p2 = [] \<and> k2 = Suc k1
        \<and> e2 = [Write ?p p1 (r2 = None)]"
      show ?thesis
      proof (cases r2)
        case (Some e)
        with a k1 have "write_fault P ?p (length pl) = Some e" "e2 = [Write ?p p1 False]"
          by auto
        with ec None e1 Some pl(2) show ?thesis
          by (intro exI [of _ pl]) auto
      next
        case r2: None
        have faults: "\<forall>j < length (pl @ [p1]). write_fault P ?p j = None"
        proof (intro allI impI)
          fix j assume "j < length (pl @ [p1])"
          then have "j < length pl \<or> j = length pl" by auto
          then show "write_fault P ?p j = None"
            using pl(2) a r2 k1 by auto
        qed
        from a r2 have "e2 = [Write ?p p1 True]" by simp
        with ec None e1 r2 content faults show ?thesis
          by (intro exI [of _ "pl @ [p1]"]) auto
      qed
    qed
  qed
qed

lemma export_collection_clean:
  "\<not> dirty c \<Longrightarrow> export_collection P A nm i c = (None, [])"
  by (simp add: export_collection_def)

lemma export_collection_paths:
  "ev \<in> set (snd (export_collection P A nm i c))
     \<Longrightarrow> event_path ev = Some (getDescriptor A nm (CollectionFile i))"
proof (cases "dirty c")
  case False
  assume "ev \<in> set (snd (export_collection P A nm i c))"
  with False show ?thesis by (simp add: export_collection_clean)
next
  case True
  assume ev: "ev \<in> set (snd (export_collection P A nm i c))"
  from export_collection_cases [OF True, of P A nm i] ev show ?thesis
    by (elim exE conjE disjE) auto
qed

lemma events_on_single_path:
  "(\<And>ev. ev \<in> set evs \<Longrightarrow> event_path ev = Some p) \<Longrightarrow>
     events_on q evs = (if q = p then evs else [])"
  by (induction evs) (auto simp: events_on_def)

lemma events_on_append: "events_on p (a @ b) = events_on p a @ events_on p b"
  by (simp add: events_on_def)

lemma events_on_export_collection:
  "events_on q (snd (export_collection P A nm i c)) =
     (if q = getDescriptor A nm (CollectionFile i) then snd (export_collection P A nm i c) else [])"
  by (rule events_on_single_path) (rule export_collection_paths)

lemma getDescriptor_inj [simp]:
  "(getDescriptor A nm f = getDescriptor A nm g) = (f = g)"
  by (simp add: getDescriptor_def)

text \<open>Each collection has its own outcome and its own file.\<close>

lemma length_export_collections:
  "length (fst (export_collections P A nm i cs)) = length cs"
  by (induction cs arbitrary: i) (simp_all add: case_prod_beta)

lemma nth_export_collections:
  "j < length cs \<Longrightarrow>
     fst (export_collections P A nm i cs) ! j = fst (export_collection P A nm (i + j) (cs ! j))"
proof (induction cs arbitrary: i j)
  case Nil
  then show ?case by simp
next
  case (Cons c cs)
  show ?case
  proof (cases j)
    case 0
    then show ?thesis by (simp add: case_prod_beta)
  next
    case (Suc j')
    with Cons.prems have "j' < length cs" by simp
    from Cons.IH [OF this, of "Suc i"] Suc show ?thesis
      by (simp add: case_prod_beta)
  qed
qed

lemma events_on_export_collections:
  "events_on (getDescriptor A nm (CollectionFile j)) (snd (export_collections P A nm i cs)) =
     (if i \<le> j \<and> j < i + length cs then snd (export_collection P A nm j (cs ! (j - i))) else [])"
proof (induction cs arbitrary: i)
  case Nil
  then show ?case by (auto simp: events_on_def)
next
  case (Cons c cs)
  have split: "snd (export_collections P A nm i (c # cs)) =
      snd (export_collection P A nm i c) @ snd (export_collections P A nm (Suc i) cs)"
    by (simp add: case_prod_beta)
  show ?case
  proof (cases "j = i")
    case True
    with Cons.IH [of "Suc i"] show ?thesis
      by (simp add: case_prod_beta events_on_append events_on_export_collection)
  next
    case False
    have "cs ! (j - Suc i) = (c # cs) ! (j - i)" if "i \<le> j"
    proof -
      from that False have "j - i = Suc (j - Suc i)" by arith
      then show ?thesis by simp
    qed
    with False Cons.IH [of "Suc i"] show ?thesis
      by (auto simp: case_prod_beta events_on_append events_on_export_collection Cons.IH)
  qed
qed


section \<open>The claims about \<^verbatim>\<open>exportDatabase\<close>\<close>

lemma exportDatabase_meta_failed:
  "write_fault P (getDescriptor A nm MetaFile) 0 = Some e \<Longrightarrow>
     exportDatabase P A nm database =
       (Some e, [CreateDirectory (parent A) nm, Open (getDescriptor A nm MetaFile) MODE_WRITE,
                 Write (getDescriptor A nm MetaFile) (db_serialize P (cleared database)) False])"
  by (simp add: exportDatabase_def descriptor_write_def)

lemma exportDatabase_meta_ok:
  "write_fault P (getDescriptor A nm MetaFile) 0 = None \<Longrightarrow>
     exportDatabase P A nm database =
       (first_error (map (\<lambda>i. fst (export_collections P A nm 0 (collections database)) ! i)
          (arrival (write_order P)
             (length (fst (export_collections P A nm 0 (collections database)))))),
        [CreateDirectory (parent A) nm, Open (getDescriptor A nm MetaFile) MODE_WRITE,
         Write (getDescriptor A nm MetaFile) (db_serialize P (cleared database)) True,
         Close (getDescriptor A nm MetaFile)]
        @ snd (export_collections P A nm 0 (collections database)))"
  by (simp add: exportDatabase_def descriptor_write_def case_prod_beta)

lemma events_on_exportDatabase:
  assumes "j < length (collections database)"
  shows "events_on (getDescriptor A nm (CollectionFile j)) (snd (exportDatabase P A nm database)) =
     (if write_fault P (getDescriptor A nm MetaFile) 0 = None
      then snd (export_collection P A nm j (collections database ! j)) else [])"
proof (cases "write_fault P (getDescriptor A nm MetaFile) 0")
  case None
  have "events_on (getDescriptor A nm (CollectionFile j))
      [CreateDirectory (parent A) nm, Open (getDescriptor A nm MetaFile) MODE_WRITE,
       Write (getDescriptor A nm MetaFile) (db_serialize P (cleared database)) True,
       Close (getDescriptor A nm MetaFile)] = []"
    by (simp add: events_on_def)
  with None assms show ?thesis
    by (simp add: exportDatabase_meta_ok events_on_append events_on_export_collections
        del: append_Cons)
next
  case (Some e)
  then show ?thesis
    by (simp add: exportDatabase_meta_failed events_on_def)
qed

text \<open>
  Claim C7. For a collection whose \<^verbatim>\<open>dirty\<close> flag is false, \<^verbatim>\<open>exportDatabase\<close> makes
  no request at all on the collection's file: no descriptor is opened, nothing is written,
  the file is what it was before (whatever the file system held), and the collection's
  iterator calls \<^verbatim>\<open>cnext\<close> without an error.
\<close>

theorem dirty_skip:
  assumes "i < length (collections database)"
    and "\<not> dirty (collections database ! i)"
  shows "events_on (getDescriptor A nm (CollectionFile i)) (snd (exportDatabase P A nm database)) = []
    \<and> writes_on (getDescriptor A nm (CollectionFile i)) (snd (exportDatabase P A nm database)) = []
    \<and> run_events (snd (exportDatabase P A nm database)) fs (getDescriptor A nm (CollectionFile i))
        = fs (getDescriptor A nm (CollectionFile i))
    \<and> fst (export_collections P A nm 0 (collections database)) ! i = None"
proof -
  let ?p = "getDescriptor A nm (CollectionFile i)"
  let ?evs = "snd (exportDatabase P A nm database)"
  have none: "events_on ?p ?evs = []"
    using assms by (simp add: events_on_exportDatabase export_collection_clean)
  then have "writes_on ?p ?evs = []"
    by (simp add: writes_on_def)
  moreover have "run_events ?evs fs ?p = fs ?p"
    using run_events_on [of ?evs fs ?p] none by (simp add: run_events_def)
  moreover have "fst (export_collections P A nm 0 (collections database)) ! i = None"
    using assms by (simp add: nth_export_collections export_collection_clean)
  ultimately show ?thesis
    using none by simp
qed

theorem dirty_skip_witness:
  "1 < length (collections mixed_database)
   \<and> \<not> dirty (collections mixed_database ! 1)
   \<and> events_on (getDescriptor sample_adapter ''db'' (CollectionFile 1))
       (snd (exportDatabase sample_platform sample_adapter ''db'' mixed_database)) = []
   \<and> writes_on (getDescriptor sample_adapter ''db'' (CollectionFile 1))
       (snd (exportDatabase sample_platform sample_adapter ''db'' mixed_database)) = []
   \<and> run_events (snd (exportDatabase sample_platform sample_adapter ''db'' mixed_database))
       Map.empty (getDescriptor sample_adapter ''db'' (CollectionFile 1))
       = Map.empty (getDescriptor sample_adapter ''db'' (CollectionFile 1))
   \<and> fst (export_collections sample_platform sample_adapter ''db'' 0
            (collections mixed_database)) ! 1 = None"
proof -
  have h1: "1 < length (collections mixed_database)"
    by (simp add: mixed_database_def)
  have h2: "\<not> dirty (collections mixed_database ! 1)"
    by (simp add: mixed_database_def)
  from dirty_skip [OF h1 h2, where P = sample_platform and A = sample_adapter
      and nm = "''db''" and fs = Map.empty] h1 h2
  show ?thesis by (iprover intro: conjI)
qed

lemma write_documents_first:
  assumes "b \<noteq> 0"
  shows "\<exists>ok rest. snd (snd (snd (write_documents P b p 0 (d # ds) [] 0)))
      = Write p (JSON_stringify P d @ [newline]) ok # rest"
proof -
  let ?line = "JSON_stringify P d @ [newline]"
  have bw: "batch_write P p ?line 0 =
      (write_fault P p 0, [], Suc 0, [Write p ?line (write_fault P p 0 = None)])"
    by (simp add: batch_write_def descriptor_write_def split: option.splits)
  from assms have "flush_due 0 b" by (simp add: flush_due_def)
  then show ?thesis
    using bw by (cases "write_fault P p 0") (auto simp: case_prod_beta)
qed

text \<open>
  Claim C10. For a dirty collection with at least one document and a batch size of at
  least \<open>2\<close>, the first write \<^verbatim>\<open>exportDatabase\<close> performs on the collection's file (the
  metadata write having succeeded, so that the collections are written at all) carries
  exactly the serialized line of the document at index \<open>0\<close>: the test
  \<^verbatim>\<open>didx % batch === 0\<close> holds at index \<open>0\<close>.
\<close>

theorem first_flush:
  assumes "i < length (collections database)"
    and "dirty (collections database ! i)"
    and "data (collections database ! i) = d # ds"
    and "2 \<le> writer_batch A"
    and "write_fault P (getDescriptor A nm MetaFile) 0 = None"
  shows "take 1 (writes_on (getDescriptor A nm (CollectionFile i))
                   (snd (exportDatabase P A nm database)))
           = [JSON_stringify P d @ [newline]]"
proof -
  let ?p = "getDescriptor A nm (CollectionFile i)"
  from assms(4) have "writer_batch A \<noteq> 0" by simp
  from write_documents_first [OF this, of P ?p d ds] obtain ok rest where
    first: "snd (snd (snd (write_documents P (writer_batch A) ?p 0 (d # ds) [] 0)))
      = Write ?p (JSON_stringify P d @ [newline]) ok # rest"
    by blast
  obtain r1 p1 k1 e1 where
    wd: "write_documents P (writer_batch A) ?p 0 (d # ds) [] 0 = (r1, p1, k1, e1)"
    by (cases "write_documents P (writer_batch A) ?p 0 (d # ds) [] 0") auto
  obtain r2 p2 k2 e2 where bw: "batch_write P ?p p1 k1 = (r2, p2, k2, e2)"
    by (cases "batch_write P ?p p1 k1") auto
  from first wd have e1: "e1 = Write ?p (JSON_stringify P d @ [newline]) ok # rest"
    by simp
  have "events_on ?p (snd (exportDatabase P A nm database))
      = snd (export_collection P A nm i (collections database ! i))"
    using assms(1,5) by (simp add: events_on_exportDatabase)
  also have "\<dots> = Open ?p MODE_WRITE # e1 @ e2 @ [Close ?p]"
    using assms(2,3) wd bw by (simp add: export_collection_def)
  finally show ?thesis
    by (simp add: writes_on_def e1 events_on_def)
qed

theorem first_flush_witness:
  "take 1 (writes_on (getDescriptor sample_adapter ''db'' (CollectionFile 0))
             (snd (exportDatabase sample_platform sample_adapter ''db'' mixed_database)))
     = [''true'' @ [newline]]"
proof -
  have h1: "0 < length (collections mixed_database)"
    by (simp add: mixed_database_def)
  have h2: "dirty (collections mixed_database ! 0)"
    by (simp add: mixed_database_def)
  have h3: "data (collections mixed_database ! 0) = True # [False, True]"
    by (simp add: mixed_database_def)
  have h4: "2 \<le> writer_batch sample_adapter"
    by (simp add: sample_adapter_def constructor_def)
  have h5: "write_fault sample_platform (getDescriptor sample_adapter ''db'' MetaFile) 0 = None"
    by (simp add: sample_platform_def)
  from first_flush [OF h1 h2 h3 h4 h5] show ?thesis
    by (simp add: sample_platform_def bool_stringify_def)
qed

lemma batch_write_cong:
  "write_fault P p = write_fault P' p \<Longrightarrow> batch_write P p pending k = batch_write P' p pending k"
  by (simp add: batch_write_def descriptor_write_def)

lemma write_documents_cong:
  assumes "JSON_stringify P = JSON_stringify P'" and "write_fault P p = write_fault P' p"
  shows "write_documents P b p didx docs pending k = write_documents P' b p didx docs pending k"
proof (induction docs arbitrary: didx pending k)
  case Nil
  show ?case by simp
next
  case (Cons document rest)
  have bw: "batch_write P p x n = batch_write P' p x n" for x n
    using assms(2) by (rule batch_write_cong)
  show ?case
    by (simp add: bw assms(1) Cons.IH split: prod.splits option.splits)
qed

lemma export_collection_cong:
  assumes "JSON_stringify P = JSON_stringify P'"
    and "write_fault P (getDescriptor A nm (CollectionFile j))
           = write_fault P' (getDescriptor A nm (CollectionFile j))"
  shows "export_collection P A nm j c = export_collection P' A nm j c"
proof -
  have bw: "batch_write P (getDescriptor A nm (CollectionFile j)) x n
      = batch_write P' (getDescriptor A nm (CollectionFile j)) x n" for x n
    using assms(2) by (rule batch_write_cong)
  show ?thesis
    by (simp add: export_collection_def bw write_documents_cong [OF assms]
        split: prod.splits option.splits)
qed

lemma first_error_Some: "Some e \<in> set outs \<Longrightarrow> first_error outs \<noteq> None"
  by (induction outs rule: first_error.induct) auto


lemma set_arrival: "set (arrival order n) = {0..<n}"
  by (auto simp: arrival_def)

lemma first_error_arrival_Some:
  assumes "Some e \<in> set outs"
  shows "first_error (map (\<lambda>i. outs ! i) (arrival order (length outs))) \<noteq> None"
proof -
  from assms obtain i where "i < length outs" "outs ! i = Some e"
    by (auto simp: in_set_conv_nth)
  then have "Some e \<in> set (map (\<lambda>i. outs ! i) (arrival order (length outs)))"
    by (force simp: set_arrival)
  then show ?thesis by (rule first_error_Some)
qed


lemma mem_events_on: "ev \<in> set evs \<Longrightarrow> event_path ev = Some p \<Longrightarrow> ev \<in> set (events_on p evs)"
  by (simp add: events_on_def)

text \<open>
  Claim C6. If, during an export, a write on the file of collection \<open>i\<close> reports failure,
  then the requests on that file are: the open, the writes that succeeded before, the
  failed write, and the close, so no write follows the failure and the descriptor is
  closed; the error of the failed write is the outcome of collection \<open>i\<close> and
  \<^verbatim>\<open>exportDatabase\<close> reports an error. Any other collection \<open>j\<close> is written exactly as
  it is on a platform where the writes of collection \<open>i\<close> do not fail: the same requests
  on its file and the same outcome.
\<close>

theorem write_failure_isolated:
  assumes i: "i < length (collections database)"
    and fail: "Write (getDescriptor A nm (CollectionFile i)) payload False
                 \<in> set (snd (exportDatabase P A nm database))"
    and j: "j < length (collections database)" "j \<noteq> i"
  shows "\<exists>oks e.
      events_on (getDescriptor A nm (CollectionFile i)) (snd (exportDatabase P A nm database))
        = Open (getDescriptor A nm (CollectionFile i)) MODE_WRITE
            # map (\<lambda>d. Write (getDescriptor A nm (CollectionFile i)) d True) oks
            @ [Write (getDescriptor A nm (CollectionFile i)) payload False,
               Close (getDescriptor A nm (CollectionFile i))]
      \<and> write_fault P (getDescriptor A nm (CollectionFile i)) (length oks) = Some e
      \<and> fst (export_collections P A nm 0 (collections database)) ! i = Some e
      \<and> fst (exportDatabase P A nm database) \<noteq> None
      \<and> events_on (getDescriptor A nm (CollectionFile j)) (snd (exportDatabase P A nm database))
          = events_on (getDescriptor A nm (CollectionFile j))
              (snd (exportDatabase
                 (P\<lparr>write_fault := (write_fault P)(getDescriptor A nm (CollectionFile i) := (\<lambda>k. None))\<rparr>)
                 A nm database))
      \<and> fst (export_collections P A nm 0 (collections database)) ! j
          = fst (export_collections
                 (P\<lparr>write_fault := (write_fault P)(getDescriptor A nm (CollectionFile i) := (\<lambda>k. None))\<rparr>)
                 A nm 0 (collections database)) ! j"
proof -
  let ?p = "getDescriptor A nm (CollectionFile i)"
  let ?q = "getDescriptor A nm (CollectionFile j)"
  let ?meta = "getDescriptor A nm MetaFile"
  let ?P' = "P\<lparr>write_fault := (write_fault P)(?p := (\<lambda>k. None))\<rparr>"
  let ?cs = "collections database"
  let ?evs = "snd (exportDatabase P A nm database)"
  let ?c = "?cs ! i"
  have meta: "write_fault P ?meta 0 = None"
  proof (cases "write_fault P ?meta 0")
    case None
    then show ?thesis .
  next
    case (Some e)
    with fail show ?thesis
      by (simp add: exportDatabase_meta_failed)
  qed
  have on_p: "events_on ?p ?evs = snd (export_collection P A nm i ?c)"
    using i meta by (simp add: events_on_exportDatabase)
  from fail have mem: "Write ?p payload False \<in> set (snd (export_collection P A nm i ?c))"
    using mem_events_on [of "Write ?p payload False" ?evs ?p] on_p by simp
  have dirty: "dirty ?c"
  proof (rule ccontr)
    assume "\<not> dirty ?c"
    with mem show False by (simp add: export_collection_clean)
  qed
  from export_collection_cases [OF dirty, of P A nm i] obtain pl where
    pl: "(export_collection P A nm i ?c =
            (None, Open ?p MODE_WRITE # map (\<lambda>d. Write ?p d True) pl @ [Close ?p])
          \<and> concat pl = lines_of P (data ?c))
        \<or> (\<exists>e d. write_fault P ?p (length pl) = Some e
             \<and> export_collection P A nm i ?c =
                 (Some e, Open ?p MODE_WRITE # map (\<lambda>d. Write ?p d True) pl
                    @ [Write ?p d False, Close ?p]))"
    by blast
  from pl mem obtain e d where e: "write_fault P ?p (length pl) = Some e"
    and ec: "export_collection P A nm i ?c =
        (Some e, Open ?p MODE_WRITE # map (\<lambda>d. Write ?p d True) pl @ [Write ?p d False, Close ?p])"
    by auto
  from ec mem have d: "d = payload" by auto
  have out_i: "fst (export_collections P A nm 0 ?cs) ! i = Some e"
    using i ec by (simp add: nth_export_collections)
  have "Some e \<in> set (fst (export_collections P A nm 0 ?cs))"
    using i out_i nth_mem [of i "fst (export_collections P A nm 0 ?cs)"]
    by (simp add: length_export_collections)
  then have overall: "fst (exportDatabase P A nm database) \<noteq> None"
    using meta by (simp add: exportDatabase_meta_ok first_error_arrival_Some)
  have stringify: "JSON_stringify P = JSON_stringify ?P'" by simp
  have fault_q: "write_fault P ?q = write_fault ?P' ?q"
    using j(2) by simp
  have meta': "write_fault ?P' ?meta 0 = None"
    using meta by simp
  have same: "export_collection P A nm j (?cs ! j) = export_collection ?P' A nm j (?cs ! j)"
    using stringify fault_q by (rule export_collection_cong)
  have on_q: "events_on ?q ?evs = events_on ?q (snd (exportDatabase ?P' A nm database))"
    using j(1) meta meta' same by (simp only: events_on_exportDatabase if_True)
  have out_j: "fst (export_collections P A nm 0 ?cs) ! j
      = fst (export_collections ?P' A nm 0 ?cs) ! j"
    using j(1) same by (simp only: nth_export_collections add_0)
  show ?thesis
    using on_p ec d e out_i overall on_q out_j
    by (intro exI [of _ pl] exI [of _ e]) simp
qed

theorem write_failure_isolated_witness:
  "\<exists>oks e.
      events_on (getDescriptor sample_adapter ''db'' (CollectionFile 0))
          (snd (exportDatabase failing_platform sample_adapter ''db'' sample_database))
        = Open (getDescriptor sample_adapter ''db'' (CollectionFile 0)) MODE_WRITE
            # map (\<lambda>d. Write (getDescriptor sample_adapter ''db'' (CollectionFile 0)) d True) oks
            @ [Write (getDescriptor sample_adapter ''db'' (CollectionFile 0))
                 (''false'' @ [newline] @ ''true'' @ [newline]) False,
               Close (getDescriptor sample_adapter ''db'' (CollectionFile 0))]
      \<and> write_fault failing_platform (getDescriptor sample_adapter ''db'' (CollectionFile 0))
          (length oks) = Some e
      \<and> fst (export_collections failing_platform sample_adapter ''db'' 0
               (collections sample_database)) ! 0 = Some e
      \<and> fst (exportDatabase failing_platform sample_adapter ''db'' sample_database) \<noteq> None
      \<and> events_on (getDescriptor sample_adapter ''db'' (CollectionFile 1))
            (snd (exportDatabase failing_platform sample_adapter ''db'' sample_database))
          = events_on (getDescriptor sample_adapter ''db'' (CollectionFile 1))
              (snd (exportDatabase
                 (failing_platform\<lparr>write_fault :=
                    (write_fault failing_platform)
                      (getDescriptor sample_adapter ''db'' (CollectionFile 0) := (\<lambda>k. None))\<rparr>)
                 sample_adapter ''db'' sample_database))
      \<and> fst (export_collections failing_platform sample_adapter ''db'' 0
               (collections sample_database)) ! 1
          = fst (export_collections
                 (failing_platform\<lparr>write_fault :=
                    (write_fault failing_platform)
                      (getDescriptor sample_adapter ''db'' (CollectionFile 0) := (\<lambda>k. None))\<rparr>)
                 sample_adapter ''db'' 0 (collections sample_database)) ! 1"
proof -
  have h1: "0 < length (collections sample_database)"
    by (simp add: sample_database_def)
  have h2: "Write (getDescriptor sample_adapter ''db'' (CollectionFile 0))
              (''false'' @ [newline] @ ''true'' @ [newline]) False
      \<in> set (snd (exportDatabase failing_platform sample_adapter ''db'' sample_database))"
    by (simp add: sample_defs export_defs)
  have h3: "1 < length (collections sample_database)"
    by (simp add: sample_database_def)
  have h4: "(1::nat) \<noteq> 0"
    by simp
  show ?thesis
    by (rule write_failure_isolated [OF h1 h2 h3 h4])
qed

section \<open>Batches of 25\<close>

lemma lines_of_append: "lines_of P (xs @ ys) = lines_of P xs @ lines_of P ys"
  by (simp add: lines_of_def)

lemma lines_of_Cons: "lines_of P (d # ds) = JSON_stringify P d @ newline # lines_of P ds"
  by (simp add: lines_of_def)

lemma lines_of_Nil: "lines_of P [] = []"
  by (simp add: lines_of_def)

text \<open>A run of documents none of whose indices triggers a flush only grows the batch.\<close>

lemma write_documents_no_flush:
  "(\<And>j. j < length xs \<Longrightarrow> \<not> flush_due (didx + j) b) \<Longrightarrow>
     write_documents P b p didx (xs @ rest) pending k
       = write_documents P b p (didx + length xs) rest (pending @ lines_of P xs) k"
proof (induction xs arbitrary: didx pending)
  case Nil
  show ?case by (simp add: lines_of_Nil)
next
  case (Cons x xs)
  from Cons.prems [of 0] have here: "\<not> flush_due didx b" by simp
  have later: "\<not> flush_due (Suc didx + j) b" if "j < length xs" for j
    using Cons.prems [of "Suc j"] that by simp
  from Cons.IH [of "Suc didx", OF later] here show ?case
    by (simp add: lines_of_Cons)
qed

lemma write_documents_flush:
  "flush_due didx b \<Longrightarrow> write_fault P p k = None \<Longrightarrow>
     write_documents P b p didx (d # rest) pending k =
       (case write_documents P b p (Suc didx) rest [] (Suc k) of
          (res, pending', k', evs) \<Rightarrow>
            (res, pending', k', Write p (pending @ JSON_stringify P d @ [newline]) True # evs))"
  by (simp add: batch_write_def descriptor_write_def)

lemma write_documents_block25:
  assumes "didx mod 25 = 1" and "25 \<le> length zs" and "write_fault P p k = None"
    and "didx' = didx + 25" and "k' = Suc k"
  shows "write_documents P 25 p didx zs [] k =
       (case write_documents P 25 p didx' (drop 25 zs) [] k' of
          (res, pending', k'', evs) \<Rightarrow>
            (res, pending', k'', Write p (lines_of P (take 25 zs)) True # evs))"
proof -
  have quiet: "\<not> flush_due (didx + j) 25" if "j < length (take 24 zs)" for j
  proof -
    from that have "j < 24" by simp
    with assms(1) have "(didx + j) mod 25 \<noteq> 0" by presburger
    then show ?thesis by (simp add: flush_due_def)
  qed
  have due: "flush_due (didx + 24) 25"
    using assms(1) unfolding flush_due_def by presburger
  have zs: "take 24 zs @ zs ! 24 # drop 25 zs = zs"
    using assms(2) id_take_nth_drop [of 24 zs] by simp
  have t25: "take 25 zs = take 24 zs @ [zs ! 24]"
    using assms(2) take_Suc_conv_app_nth [of 24 zs] by simp
  have len: "length (take 24 zs) = 24"
    using assms(2) by simp
  have next_idx: "Suc (didx + 24) = didx'"
    using assms(4) by simp
  have payload: "lines_of P (take 24 zs) @ JSON_stringify P (zs ! 24) @ [newline]
      = lines_of P (take 25 zs)"
    by (simp add: t25 lines_of_append lines_of_Cons lines_of_Nil)
  have "write_documents P 25 p didx (take 24 zs @ zs ! 24 # drop 25 zs) [] k
      = write_documents P 25 p (didx + 24) (zs ! 24 # drop 25 zs) (lines_of P (take 24 zs)) k"
    using write_documents_no_flush [of "take 24 zs" didx 25 P p "zs ! 24 # drop 25 zs" "[]" k, OF quiet]
    by (simp only: len append_Nil)
  also have "\<dots> = (case write_documents P 25 p didx' (drop 25 zs) [] k' of
          (res, pending', k'', evs) \<Rightarrow>
            (res, pending', k'', Write p (lines_of P (take 25 zs)) True # evs))"
    using write_documents_flush [OF due assms(3), of "zs ! 24" "drop 25 zs" "lines_of P (take 24 zs)"]
    by (simp only: next_idx payload assms(5))
  finally show ?thesis
    by (simp only: zs)
qed

lemma write_documents_101:
  assumes "length ds = 101" and "\<And>k. write_fault P p k = None"
  shows "write_documents P 25 p 0 ds [] 0 =
     (None, [], 5,
      [Write p (lines_of P (take 1 ds)) True,
       Write p (lines_of P (take 25 (drop 1 ds))) True,
       Write p (lines_of P (take 25 (drop 26 ds))) True,
       Write p (lines_of P (take 25 (drop 51 ds))) True,
       Write p (lines_of P (take 25 (drop 76 ds))) True])"
proof -
  from assms(1) obtain d rest where ds: "ds = d # rest" and rest: "length rest = 100"
    by (cases ds) auto
  have d0: "flush_due 0 25"
    by (simp add: flush_due_def)
  have first: "write_documents P 25 p 0 (d # rest) [] 0 =
      (case write_documents P 25 p (Suc 0) rest [] (Suc 0) of
         (res, pending', k', evs) \<Rightarrow>
           (res, pending', k', Write p (lines_of P [d]) True # evs))"
    using write_documents_flush [OF d0 assms(2), of d rest "[]"]
    by (simp only: append_Nil lines_of_Cons lines_of_Nil append_Cons)
  have b1: "write_documents P 25 p (Suc 0) rest [] (Suc 0) =
      (case write_documents P 25 p 26 (drop 25 rest) [] 2 of
         (res, pending', k', evs) \<Rightarrow>
           (res, pending', k', Write p (lines_of P (take 25 rest)) True # evs))"
    by (rule write_documents_block25) (simp_all add: rest assms(2))
  have b2: "write_documents P 25 p 26 (drop 25 rest) [] 2 =
      (case write_documents P 25 p 51 (drop 25 (drop 25 rest)) [] 3 of
         (res, pending', k', evs) \<Rightarrow>
           (res, pending', k', Write p (lines_of P (take 25 (drop 25 rest))) True # evs))"
    by (rule write_documents_block25) (simp_all add: rest assms(2))
  have b3: "write_documents P 25 p 51 (drop 25 (drop 25 rest)) [] 3 =
      (case write_documents P 25 p 76 (drop 25 (drop 25 (drop 25 rest))) [] 4 of
         (res, pending', k', evs) \<Rightarrow>
           (res, pending', k',
            Write p (lines_of P (take 25 (drop 25 (drop 25 rest)))) True # evs))"
    by (rule write_documents_block25) (simp_all add: rest assms(2))
  have b4: "write_documents P 25 p 76 (drop 25 (drop 25 (drop 25 rest))) [] 4 =
      (case write_documents P 25 p 101 (drop 25 (drop 25 (drop 25 (drop 25 rest)))) [] 5 of
         (res, pending', k', evs) \<Rightarrow>
           (res, pending', k',
            Write p (lines_of P (take 25 (drop 25 (drop 25 (drop 25 rest))))) True # evs))"
    by (rule write_documents_block25) (simp_all add: rest assms(2))
  have "drop 25 (drop 25 (drop 25 (drop 25 rest))) = []"
    using rest by simp
  then have fin: "write_documents P 25 p 101 (drop 25 (drop 25 (drop 25 (drop 25 rest)))) [] 5
      = (None, [], 5, [])"
    by simp
  have "write_documents P 25 p 0 (d # rest) [] 0 =
     (None, [], 5,
      [Write p (lines_of P [d]) True,
       Write p (lines_of P (take 25 rest)) True,
       Write p (lines_of P (take 25 (drop 25 rest))) True,
       Write p (lines_of P (take 25 (drop 25 (drop 25 rest)))) True,
       Write p (lines_of P (take 25 (drop 25 (drop 25 (drop 25 rest))))) True])"
    by (simp only: first b1 b2 b3 b4 fin prod.case)
  then show ?thesis
    by (simp add: ds del: write_documents.simps)
qed

lemma events_101:
  assumes "i < length (collections database)"
    and "dirty (collections database ! i)"
    and "length (data (collections database ! i)) = 101"
    and "writer_batch A = 25"
    and "write_fault P (getDescriptor A nm MetaFile) 0 = None"
    and "\<And>k. write_fault P (getDescriptor A nm (CollectionFile i)) k = None"
  shows "events_on (getDescriptor A nm (CollectionFile i)) (snd (exportDatabase P A nm database)) =
      [Open (getDescriptor A nm (CollectionFile i)) MODE_WRITE,
       Write (getDescriptor A nm (CollectionFile i))
         (lines_of P (take 1 (data (collections database ! i)))) True,
       Write (getDescriptor A nm (CollectionFile i))
         (lines_of P (take 25 (drop 1 (data (collections database ! i))))) True,
       Write (getDescriptor A nm (CollectionFile i))
         (lines_of P (take 25 (drop 26 (data (collections database ! i))))) True,
       Write (getDescriptor A nm (CollectionFile i))
         (lines_of P (take 25 (drop 51 (data (collections database ! i))))) True,
       Write (getDescriptor A nm (CollectionFile i))
         (lines_of P (take 25 (drop 76 (data (collections database ! i))))) True,
       Close (getDescriptor A nm (CollectionFile i))]"
proof -
  let ?p = "getDescriptor A nm (CollectionFile i)"
  have "events_on ?p (snd (exportDatabase P A nm database))
      = snd (export_collection P A nm i (collections database ! i))"
    using assms(1,5) by (simp add: events_on_exportDatabase)
  then show ?thesis
    using assms(2,4) write_documents_101 [OF assms(3), of P ?p] assms(6)
    by (simp add: export_collection_def batch_write_def)
qed

text \<open>
  Claim C5, as amended. Exporting a dirty collection of exactly \<open>101\<close> documents with
  batch size \<open>25\<close>, no write failing, performs exactly \<open>5\<close> writes on its file: the
  first carries the one document at index \<open>0\<close>, each of the four that follow carries the
  next \<open>25\<close> documents, and when the loop ends the batch is empty, so that the residual
  flush writes nothing.
\<close>

theorem batch_101:
  assumes "i < length (collections database)"
    and "dirty (collections database ! i)"
    and "length (data (collections database ! i)) = 101"
    and "writer_batch A = 25"
    and "write_fault P (getDescriptor A nm MetaFile) 0 = None"
    and "\<And>k. write_fault P (getDescriptor A nm (CollectionFile i)) k = None"
  shows "writes_on (getDescriptor A nm (CollectionFile i)) (snd (exportDatabase P A nm database)) =
      [lines_of P (take 1 (data (collections database ! i))),
       lines_of P (take 25 (drop 1 (data (collections database ! i)))),
       lines_of P (take 25 (drop 26 (data (collections database ! i)))),
       lines_of P (take 25 (drop 51 (data (collections database ! i)))),
       lines_of P (take 25 (drop 76 (data (collections database ! i))))]
    \<and> length (writes_on (getDescriptor A nm (CollectionFile i))
                (snd (exportDatabase P A nm database))) = 5
    \<and> fst (snd (write_documents P (writer_batch A) (getDescriptor A nm (CollectionFile i)) 0
                  (data (collections database ! i)) [] 0)) = []"
proof -
  let ?p = "getDescriptor A nm (CollectionFile i)"
  have "fst (snd (write_documents P (writer_batch A) ?p 0 (data (collections database ! i)) [] 0))
      = []"
    using write_documents_101 [OF assms(3), of P ?p] assms(4,6) by simp
  then show ?thesis
    using events_101 [OF assms] by (simp add: writes_on_def)
qed

theorem batch_101_witness:
  "writes_on (getDescriptor default_adapter ''db'' (CollectionFile 0))
       (snd (exportDatabase sample_platform default_adapter ''db'' batch_database)) =
      [lines_of sample_platform (take 1 (data (collections batch_database ! 0))),
       lines_of sample_platform (take 25 (drop 1 (data (collections batch_database ! 0)))),
       lines_of sample_platform (take 25 (drop 26 (data (collections batch_database ! 0)))),
       lines_of sample_platform (take 25 (drop 51 (data (collections batch_database ! 0)))),
       lines_of sample_platform (take 25 (drop 76 (data (collections batch_database ! 0))))]
    \<and> length (writes_on (getDescriptor default_adapter ''db'' (CollectionFile 0))
                (snd (exportDatabase sample_platform default_adapter ''db'' batch_database))) = 5
    \<and> fst (snd (write_documents sample_platform (writer_batch default_adapter)
                  (getDescriptor default_adapter ''db'' (CollectionFile 0)) 0
                  (data (collections batch_database ! 0)) [] 0)) = []"
proof (rule batch_101)
  show "0 < length (collections batch_database)"
    by (simp add: batch_database_def)
  show "dirty (collections batch_database ! 0)"
    by (simp add: batch_database_def)
  show "length (data (collections batch_database ! 0)) = 101"
    by (simp add: batch_database_def)
  show "writer_batch default_adapter = 25"
    by (simp add: default_adapter_def constructor_def)
  show "write_fault sample_platform (getDescriptor default_adapter ''db'' MetaFile) 0 = None"
    by (simp add: sample_platform_def)
  show "write_fault sample_platform (getDescriptor default_adapter ''db'' (CollectionFile 0)) k = None"
    for k
    by (simp add: sample_platform_def)
qed

lemma length_lines_of_replicate:
  "length (lines_of P (replicate n d)) = n * Suc (length (JSON_stringify P d))"
  by (induction n) (simp_all add: lines_of_Nil lines_of_Cons)

text \<open>
  Claim C5 as stated fails on \<open>101\<close> documents \<^verbatim>\<open>true\<close>: the writes are not four
  batches of \<open>25\<close> followed by a residual of one document. The last write carries \<open>25\<close>
  documents, and the residual flush, called with the batch the loop leaves, writes nothing.
\<close>

theorem batch_101_counterexample:
  "writes_on (getDescriptor default_adapter ''db'' (CollectionFile 0))
       (snd (exportDatabase sample_platform default_adapter ''db'' batch_database))
     \<noteq> [lines_of sample_platform (replicate 25 True),
         lines_of sample_platform (replicate 25 True),
         lines_of sample_platform (replicate 25 True),
         lines_of sample_platform (replicate 25 True),
         lines_of sample_platform (replicate 1 True)]
   \<and> last (writes_on (getDescriptor default_adapter ''db'' (CollectionFile 0))
             (snd (exportDatabase sample_platform default_adapter ''db'' batch_database)))
       = lines_of sample_platform (replicate 25 True)
   \<and> batch_write sample_platform (getDescriptor default_adapter ''db'' (CollectionFile 0))
         (fst (snd (write_documents sample_platform 25
                      (getDescriptor default_adapter ''db'' (CollectionFile 0)) 0
                      (replicate 101 True) [] 0))) 5
       = (None, [], 5, [])"
proof -
  let ?p = "getDescriptor default_adapter ''db'' (CollectionFile 0)"
  let ?evs = "snd (exportDatabase sample_platform default_adapter ''db'' batch_database)"
  have "events_on ?p ?evs =
      [Open ?p MODE_WRITE,
       Write ?p (lines_of sample_platform (take 1 (data (collections batch_database ! 0)))) True,
       Write ?p (lines_of sample_platform (take 25 (drop 1 (data (collections batch_database ! 0))))) True,
       Write ?p (lines_of sample_platform (take 25 (drop 26 (data (collections batch_database ! 0))))) True,
       Write ?p (lines_of sample_platform (take 25 (drop 51 (data (collections batch_database ! 0))))) True,
       Write ?p (lines_of sample_platform (take 25 (drop 76 (data (collections batch_database ! 0))))) True,
       Close ?p]"
    by (rule events_101)
      (simp_all add: batch_database_def default_adapter_def constructor_def sample_platform_def)
  then have writes: "writes_on ?p ?evs =
      [lines_of sample_platform (replicate 1 True),
       lines_of sample_platform (replicate 25 True),
       lines_of sample_platform (replicate 25 True),
       lines_of sample_platform (replicate 25 True),
       lines_of sample_platform (replicate 25 True)]"
    by (simp add: writes_on_def batch_database_def)
  have "length (lines_of sample_platform (replicate 1 True))
      \<noteq> length (lines_of sample_platform (replicate 25 True))"
    by (simp only: length_lines_of_replicate) simp
  then have differ: "lines_of sample_platform (replicate 1 True)
      \<noteq> lines_of sample_platform (replicate 25 True)"
    by auto
  have "write_documents sample_platform 25 ?p 0 (replicate 101 True) [] 0
      = (None, [], 5,
         [Write ?p (lines_of sample_platform (take 1 (replicate 101 True))) True,
          Write ?p (lines_of sample_platform (take 25 (drop 1 (replicate 101 True)))) True,
          Write ?p (lines_of sample_platform (take 25 (drop 26 (replicate 101 True)))) True,
          Write ?p (lines_of sample_platform (take 25 (drop 51 (replicate 101 True)))) True,
          Write ?p (lines_of sample_platform (take 25 (drop 76 (replicate 101 True)))) True])"
    by (rule write_documents_101) (simp_all add: sample_platform_def)
  then have residual: "batch_write sample_platform ?p
      (fst (snd (write_documents sample_platform 25 ?p 0 (replicate 101 True) [] 0))) 5
      = (None, [], 5, [])"
    by (simp add: batch_write_def)
  from writes differ residual show ?thesis
    by simp
qed

section \<open>The collection reader\<close>

lemma read_loop_Cons:
  "read_loop P cap p (x # xs) r =
     (case read_callback P cap p x r of
        Inr (out, ds, evs) \<Rightarrow> (out, ds, Read p x # evs)
      | Inl r' \<Rightarrow>
          (case read_loop P cap p xs r' of (out, ds, evs) \<Rightarrow> (out, ds, Read p x # evs)))"
  by (subst read_loop.simps) (simp split: sum.splits prod.splits)


lemma file_reads_Nil: "file_reads cap [] = []"
  by (subst file_reads.simps) simp

lemma file_reads_step:
  "0 < cap \<Longrightarrow> content \<noteq> [] \<Longrightarrow>
     file_reads cap content =
       ReadOk (int (length (take cap content))) (take cap content)
         # file_reads cap (drop cap content)"
  by (subst file_reads.simps) simp


lemma complete_plain:
  "newline \<notin> set (offset r) \<Longrightarrow> complete P p r = (Next None, loaded r, [Close p])"
  by (simp add: complete_def chunk_def chunk_loop_plain)



lemma read_loop_eof:
  "read_loop P cap p [] r =
     (case projr (read_callback P cap p (eof_result P) r) of
        (out, ds, evs) \<Rightarrow> (out, ds, Read p (eof_result P) # evs))"
proof (cases "read_callback P cap p (eof_result P) r")
  case (Inl r')
  with read_callback_eof [of P cap p r r'] show ?thesis by simp
next
  case (Inr x)
  then show ?thesis
    by (subst read_loop.simps) (simp split: prod.splits)
qed

lemma run_reads_done:
  "running slots = [] \<Longrightarrow> run_reads P cap sched slots fired = (fired, slots, [])"
  by (subst run_reads.simps) simp

lemma run_reads_turn:
  "running slots \<noteq> [] \<Longrightarrow>
     run_reads P cap sched slots fired =
       (case run_reads P cap (tl sched) (fst (turn P cap sched slots fired))
               (fst (snd (turn P cap sched slots fired))) of
          (fired', final, evs) \<Rightarrow>
            (fired', final, snd (snd (turn P cap sched slots fired)) @ evs))"
  by (subst run_reads.simps) simp

lemmas load_defs =
  loadDatabase_def run_reads_done run_reads_turn turn_def running_def pick_def
  file_reads_step file_reads_Nil read_callback_def complete_def chunk_def push_def
  createBuffer_def buffer_store_def buffer_clear_def eof_result_def each_done_def with_data_def
  lines_of_def read_failing_platform_def sample_files_def chunk_loop_plain
  read_loop_Cons read_loop_eof













section \<open>Export, then load\<close>






section \<open>Failures and absent files on load\<close>

lemma read_loop_failure_first:
  "parsed r = 0 \<Longrightarrow>
     read_loop P cap p (ReadFail e # post) r = (Next (Some e), loaded r, [Read p (ReadFail e)])"
  by (simp add: read_loop_Cons read_callback_def)

text \<open>
  A read failure after reads that each filled the buffer. The buffer then holds exactly the
  bytes read, so the codec has been fed the bytes of the file read so far; the pending
  string never holds a newline, so \<^verbatim>\<open>_complete\<close> emits nothing and cannot throw.
\<close>

lemma buffer_store_full:
  "length bytes = cap \<Longrightarrow> buffer_store (replicate cap NUL) bytes = bytes"
  by (simp add: buffer_store_def)

lemma read_loop_failure_later:
  assumes "0 < cap"
    and "\<And>x. x \<in> set pre \<Longrightarrow> \<exists>bytes. x = ReadOk (int cap) bytes \<and> length bytes = cap"
    and "buffer r = replicate cap NUL"
    and "newline \<notin> set (offset r)"
    and "pre \<noteq> [] \<or> parsed r \<noteq> 0"
    and "read_loop P cap p (pre @ ReadFail e # post) r = (out, ds, evs)"
  shows "case chunk_loop (JSON_parse P) push (offset r) (concat (map bytes_of pre)) (loaded r) of
           (ds', Some rest) \<Rightarrow>
             out = Next None \<and> ds = ds'
               \<and> evs = map (Read p) pre @ [Read p (ReadFail e), Close p]
         | (ds', None) \<Rightarrow>
             out = Threw \<and> ds = ds' \<and> (\<exists>n. evs = map (Read p) (take n pre))"
  using assms(2-6)
proof (induction pre arbitrary: r out ds evs)
  case Nil
  then have "parsed r \<noteq> 0" by simp
  with Nil.prems(3,5) show ?case
    by (simp add: read_loop_Cons read_callback_def complete_plain)
next
  case (Cons x pre)
  from Cons.prems(1) [of x] obtain bytes where x: "x = ReadOk (int cap) bytes"
    and len: "length bytes = cap" by auto
  have stored: "buffer_store (buffer r) bytes = bytes"
    using len Cons.prems(2) by (simp add: buffer_store_full)
  obtain ds1 res where c: "chunk_loop (JSON_parse P) push (offset r) bytes (loaded r) = (ds1, res)"
    by (cases "chunk_loop (JSON_parse P) push (offset r) bytes (loaded r)") auto
  show ?case
  proof (cases res)
    case None
    with Cons.prems(5) x c stored have "out = Threw" "ds = ds1" "evs = map (Read p) (take 1 (x # pre))"
      by (simp_all add: read_loop_Cons read_callback_def chunk_def)
    moreover have "chunk_loop (JSON_parse P) push (offset r) (concat (map bytes_of (x # pre))) (loaded r)
        = (ds1, None)"
      using x c None by (simp add: chunk_loop_append)
    ultimately show ?thesis
      by (simp only: prod.case option.case) blast
  next
    case (Some rest)
    let ?r' = "\<lparr> offset = rest, buffer = buffer_clear bytes, parsed = int cap, loaded = ds1 \<rparr>"
    have cb: "read_callback P cap p x r = Inl ?r'"
      using x c Some stored by (simp add: read_callback_def chunk_def)
    obtain out' ds' evs' where
      rec: "read_loop P cap p (pre @ ReadFail e # post) ?r' = (out', ds', evs')"
      by (cases "read_loop P cap p (pre @ ReadFail e # post) ?r'") auto
    from Cons.prems(5) cb rec have same: "out = out'" "ds = ds'" "evs = Read p x # evs'"
      by (simp_all add: read_loop_Cons)
    have plain: "newline \<notin> set rest"
      using Cons.prems(3) c [unfolded Some] by (rule chunk_loop_no_newline)
    have ih: "case chunk_loop (JSON_parse P) push (offset ?r') (concat (map bytes_of pre)) (loaded ?r') of
           (ds'', Some rest) \<Rightarrow>
             out' = Next None \<and> ds' = ds''
               \<and> evs' = map (Read p) pre @ [Read p (ReadFail e), Close p]
         | (ds'', None) \<Rightarrow>
             out' = Threw \<and> ds' = ds'' \<and> (\<exists>n. evs' = map (Read p) (take n pre))"
    proof (rule Cons.IH [OF _ _ _ _ rec])
      fix y assume "y \<in> set pre"
      then show "\<exists>bytes. y = ReadOk (int cap) bytes \<and> length bytes = cap"
        using Cons.prems(1) [of y] by simp
    next
      show "buffer ?r' = replicate cap NUL"
        using len by (simp add: buffer_clear_def)
      show "newline \<notin> set (offset ?r')"
        using plain by simp
      show "pre \<noteq> [] \<or> parsed ?r' \<noteq> 0"
        using assms(1) by simp
    qed
    have whole: "chunk_loop (JSON_parse P) push (offset r) (concat (map bytes_of (x # pre))) (loaded r)
        = chunk_loop (JSON_parse P) push rest (concat (map bytes_of pre)) ds1"
      using x c Some by (simp add: chunk_loop_append)
    obtain ds2 res2 where
      c2: "chunk_loop (JSON_parse P) push rest (concat (map bytes_of pre)) ds1 = (ds2, res2)"
      by (cases "chunk_loop (JSON_parse P) push rest (concat (map bytes_of pre)) ds1") auto
    show ?thesis
    proof (cases res2)
      case None
      with ih c2 obtain n where "out' = Threw" "ds' = ds2" "evs' = map (Read p) (take n pre)"
        by auto
      with same have "out = Threw" "ds = ds2" "evs = map (Read p) (take (Suc n) (x # pre))"
        by simp_all
      with whole c2 None show ?thesis
        by (simp only: prod.case option.case) blast
    next
      case (Some rest2)
      with ih c2 same whole show ?thesis
        by simp
    qed
  qed
qed

text \<open>
  Claim C4, as amended. A read failure on the collection's first read, when no bytes have
  been processed, is that collection's outcome: \<^verbatim>\<open>next\<close> receives the error, the documents
  are untouched and the stream stays open. A read failure that follows reads which each
  filled the buffer (so that \<^verbatim>\<open>parsed\<close> is not zero) is taken for the end of the stream. The
  documents of the collection are then those \<^verbatim>\<open>_chunk\<close> emits on the bytes read before the
  failure. If every complete line among them parses, the reads are those up to the failing
  one, the stream is closed and \<^verbatim>\<open>next\<close> is called without an error. Otherwise, and only
  then, the exception of \<^verbatim>\<open>JSON.parse\<close> escapes the callback of the read that completed the
  line, with the documents emitted before it, and \<^verbatim>\<open>next\<close> is never called.
\<close>

theorem read_failure_outcome:
  assumes "0 < cap"
    and "\<And>x. x \<in> set pre \<Longrightarrow> \<exists>bytes. x = ReadOk (int cap) bytes \<and> length bytes = cap"
    and "read_loop P cap p (pre @ ReadFail e # post)
           \<lparr> offset = [], buffer = createBuffer cap, parsed = 0, loaded = ds0 \<rparr>
         = (out, ds, evs)"
  shows "(pre = [] \<longrightarrow> out = Next (Some e) \<and> ds = ds0 \<and> evs = [Read p (ReadFail e)])
    \<and> (pre \<noteq> [] \<longrightarrow>
         (case chunk (JSON_parse P) [] (concat (map bytes_of pre)) push ds0 of
            (ds', Some rest) \<Rightarrow>
              out = Next None \<and> ds = ds'
                \<and> evs = map (Read p) pre @ [Read p (ReadFail e), Close p]
          | (ds', None) \<Rightarrow>
              out = Threw \<and> ds = ds' \<and> (\<exists>n. evs = map (Read p) (take n pre))))"
proof (rule conjI)
  let ?r = "\<lparr> offset = [], buffer = createBuffer cap, parsed = 0, loaded = ds0 \<rparr>"
  show "pre = [] \<longrightarrow> out = Next (Some e) \<and> ds = ds0 \<and> evs = [Read p (ReadFail e)]"
  proof
    assume "pre = []"
    with assms(3) read_loop_failure_first [of ?r P cap p e post]
    show "out = Next (Some e) \<and> ds = ds0 \<and> evs = [Read p (ReadFail e)]"
      by auto
  qed
  show "pre \<noteq> [] \<longrightarrow>
         (case chunk (JSON_parse P) [] (concat (map bytes_of pre)) push ds0 of
            (ds', Some rest) \<Rightarrow>
              out = Next None \<and> ds = ds'
                \<and> evs = map (Read p) pre @ [Read p (ReadFail e), Close p]
          | (ds', None) \<Rightarrow>
              out = Threw \<and> ds = ds' \<and> (\<exists>n. evs = map (Read p) (take n pre)))"
  proof
    assume "pre \<noteq> []"
    then have later: "pre \<noteq> [] \<or> parsed ?r \<noteq> 0"
      by simp
    have buf: "buffer ?r = replicate cap NUL"
      by (simp add: createBuffer_def)
    have off: "newline \<notin> set (offset ?r)"
      by simp
    have "case chunk_loop (JSON_parse P) push (offset ?r) (concat (map bytes_of pre)) (loaded ?r) of
           (ds', Some rest) \<Rightarrow>
             out = Next None \<and> ds = ds'
               \<and> evs = map (Read p) pre @ [Read p (ReadFail e), Close p]
         | (ds', None) \<Rightarrow>
             out = Threw \<and> ds = ds' \<and> (\<exists>n. evs = map (Read p) (take n pre))"
      using assms(1,2) buf off later assms(3) by (rule read_loop_failure_later)
    then show "case chunk (JSON_parse P) [] (concat (map bytes_of pre)) push ds0 of
            (ds', Some rest) \<Rightarrow>
              out = Next None \<and> ds = ds'
                \<and> evs = map (Read p) pre @ [Read p (ReadFail e), Close p]
          | (ds', None) \<Rightarrow>
              out = Threw \<and> ds = ds' \<and> (\<exists>n. evs = map (Read p) (take n pre))"
      by (simp add: chunk_def)
  qed
qed

theorem read_failure_outcome_witness:
  "[ReadOk 5 (''true'' @ [newline])] \<noteq> []
   \<and> read_loop sample_platform 5 (''data'', ''db'', CollectionFile 0)
        ([ReadOk 5 (''true'' @ [newline])] @ ReadFail ''EIO'' # [])
        \<lparr> offset = [], buffer = createBuffer 5, parsed = 0, loaded = [] \<rparr>
       = (Next None, [True],
          [Read (''data'', ''db'', CollectionFile 0) (ReadOk 5 (''true'' @ [newline])),
           Read (''data'', ''db'', CollectionFile 0) (ReadFail ''EIO''),
           Close (''data'', ''db'', CollectionFile 0)])
   \<and> chunk (JSON_parse sample_platform) []
        (concat (map bytes_of [ReadOk 5 (''true'' @ [newline])])) push [] = ([True], Some [])
   \<and> (case chunk (JSON_parse sample_platform) []
              (concat (map bytes_of [ReadOk 5 (''true'' @ [newline])])) push [] of
         (ds', Some rest) \<Rightarrow>
           Next None = Next None \<and> [True] = ds'
             \<and> [Read (''data'', ''db'', CollectionFile 0) (ReadOk 5 (''true'' @ [newline])),
                 Read (''data'', ''db'', CollectionFile 0) (ReadFail ''EIO''),
                 Close (''data'', ''db'', CollectionFile 0)]
               = map (Read (''data'', ''db'', CollectionFile 0)) [ReadOk 5 (''true'' @ [newline])]
                   @ [Read (''data'', ''db'', CollectionFile 0) (ReadFail ''EIO''),
                      Close (''data'', ''db'', CollectionFile 0)]
       | (ds', None) \<Rightarrow>
           Next None = Threw \<and> [True] = ds'
             \<and> (\<exists>n. [Read (''data'', ''db'', CollectionFile 0) (ReadOk 5 (''true'' @ [newline])),
                      Read (''data'', ''db'', CollectionFile 0) (ReadFail ''EIO''),
                      Close (''data'', ''db'', CollectionFile 0)]
                    = map (Read (''data'', ''db'', CollectionFile 0))
                        (take n [ReadOk 5 (''true'' @ [newline])])))"
proof -
  have cap: "0 < (5::nat)"
    by simp
  have pre: "\<exists>bytes. x = ReadOk (int 5) bytes \<and> length bytes = 5"
    if "x \<in> set [ReadOk 5 (''true'' @ [newline])]" for x
    using that by simp
  have nonempty: "[ReadOk 5 (''true'' @ [newline])] \<noteq> []"
    by simp
  have run: "read_loop sample_platform 5 (''data'', ''db'', CollectionFile 0)
        ([ReadOk 5 (''true'' @ [newline])] @ ReadFail ''EIO'' # [])
        \<lparr> offset = [], buffer = createBuffer 5, parsed = 0, loaded = [] \<rparr>
       = (Next None, [True],
          [Read (''data'', ''db'', CollectionFile 0) (ReadOk 5 (''true'' @ [newline])),
           Read (''data'', ''db'', CollectionFile 0) (ReadFail ''EIO''),
           Close (''data'', ''db'', CollectionFile 0)])"
    by (simp add: load_defs sample_defs)
  have fed: "chunk (JSON_parse sample_platform) []
        (concat (map bytes_of [ReadOk 5 (''true'' @ [newline])])) push [] = ([True], Some [])"
    by (simp add: chunk_def push_def sample_defs)
  have "([ReadOk 5 (''true'' @ [newline])] = []
        \<longrightarrow> Next None = Next (Some ''EIO'') \<and> [True] = []
          \<and> [Read (''data'', ''db'', CollectionFile 0) (ReadOk 5 (''true'' @ [newline])),
              Read (''data'', ''db'', CollectionFile 0) (ReadFail ''EIO''),
              Close (''data'', ''db'', CollectionFile 0)]
            = [Read (''data'', ''db'', CollectionFile 0) (ReadFail ''EIO'')])
    \<and> ([ReadOk 5 (''true'' @ [newline])] \<noteq> []
        \<longrightarrow> (case chunk (JSON_parse sample_platform) []
              (concat (map bytes_of [ReadOk 5 (''true'' @ [newline])])) push [] of
         (ds', Some rest) \<Rightarrow>
           Next None = Next None \<and> [True] = ds'
             \<and> [Read (''data'', ''db'', CollectionFile 0) (ReadOk 5 (''true'' @ [newline])),
                 Read (''data'', ''db'', CollectionFile 0) (ReadFail ''EIO''),
                 Close (''data'', ''db'', CollectionFile 0)]
               = map (Read (''data'', ''db'', CollectionFile 0)) [ReadOk 5 (''true'' @ [newline])]
                   @ [Read (''data'', ''db'', CollectionFile 0) (ReadFail ''EIO''),
                      Close (''data'', ''db'', CollectionFile 0)]
       | (ds', None) \<Rightarrow>
           Next None = Threw \<and> [True] = ds'
             \<and> (\<exists>n. [Read (''data'', ''db'', CollectionFile 0) (ReadOk 5 (''true'' @ [newline])),
                      Read (''data'', ''db'', CollectionFile 0) (ReadFail ''EIO''),
                      Close (''data'', ''db'', CollectionFile 0)]
                    = map (Read (''data'', ''db'', CollectionFile 0))
                        (take n [ReadOk 5 (''true'' @ [newline])]))))"
    using cap pre run by (rule read_failure_outcome)
  note outcome = this [THEN conjunct2, THEN mp, OF nonempty]
  show ?thesis
    by (rule conjI [OF nonempty conjI [OF run conjI [OF fed outcome]]])
qed

text \<open>
  Claim C4 as stated fails: the second read of collection \<open>0\<close> reports failure, after a
  first read that filled the buffer, and the caller receives the database, with the one
  document parsed so far, as on success.
\<close>

theorem read_failure_not_surfaced:
  "Read (''data'', ''db'', CollectionFile 0) (ReadFail ''EIO'')
     \<in> set (snd (loadDatabase (read_failing_platform 1) sample_adapter ''db'' sample_files))
   \<and> fst (loadDatabase (read_failing_platform 1) sample_adapter ''db'' sample_files)
       = Loaded \<lparr> collections = [\<lparr> dirty = True, data = [True] \<rparr>,
                                  \<lparr> dirty = True, data = [] \<rparr>] \<rparr>"
proof -
  have "loadDatabase (read_failing_platform 1) sample_adapter ''db'' sample_files
      = (Loaded \<lparr> collections = [\<lparr> dirty = True, data = [True] \<rparr>,
                                  \<lparr> dirty = True, data = [] \<rparr>] \<rparr>,
         [Exists (''data'', ''db'', MetaFile), ReadText (''data'', ''db'', MetaFile),
          Open (''data'', ''db'', CollectionFile 0) MODE_READ,
          Open (''data'', ''db'', CollectionFile 1) MODE_READ,
          Read (''data'', ''db'', CollectionFile 0) (ReadOk 5 (''true'' @ [newline])),
          Read (''data'', ''db'', CollectionFile 0) (ReadFail ''EIO''),
          Close (''data'', ''db'', CollectionFile 0),
          Read (''data'', ''db'', CollectionFile 1) (ReadOk (- 1) []),
          Close (''data'', ''db'', CollectionFile 1)])"
    by (simp add: load_defs sample_defs)
  then show ?thesis
    by simp
qed

text \<open>
  Claim C3 at its two failing inputs. When the metadata write reports failure,
  \<^verbatim>\<open>exportDatabase\<close> returns through \<^verbatim>\<open>callback(result.error)\<close> and the metadata
  descriptor it opened is never closed. When the first read of a collection reports
  failure, \<^verbatim>\<open>loadDatabase\<close> calls \<^verbatim>\<open>next(result.error)\<close> and the stream it opened is
  never closed.
\<close>

theorem descriptor_not_closed:
  "fst (exportDatabase meta_failing_platform sample_adapter ''db'' sample_database) = Some ''EIO''
   \<and> Open (''data'', ''db'', MetaFile) MODE_WRITE
       \<in> set (snd (exportDatabase meta_failing_platform sample_adapter ''db'' sample_database))
   \<and> Close (''data'', ''db'', MetaFile)
       \<notin> set (snd (exportDatabase meta_failing_platform sample_adapter ''db'' sample_database))
   \<and> Open (''data'', ''db'', CollectionFile 0) MODE_READ
       \<in> set (snd (loadDatabase (read_failing_platform 0) sample_adapter ''db'' sample_files))
   \<and> Read (''data'', ''db'', CollectionFile 0) (ReadFail ''EIO'')
       \<in> set (snd (loadDatabase (read_failing_platform 0) sample_adapter ''db'' sample_files))
   \<and> Close (''data'', ''db'', CollectionFile 0)
       \<notin> set (snd (loadDatabase (read_failing_platform 0) sample_adapter ''db'' sample_files))"
proof -
  have export: "exportDatabase meta_failing_platform sample_adapter ''db'' sample_database
      = (Some ''EIO'',
         [CreateDirectory ''data'' ''db'', Open (''data'', ''db'', MetaFile) MODE_WRITE,
          Write (''data'', ''db'', MetaFile) ''11'' False])"
    by (simp add: meta_failing_platform_def sample_defs export_defs)
  have load: "snd (loadDatabase (read_failing_platform 0) sample_adapter ''db'' sample_files)
      = [Exists (''data'', ''db'', MetaFile), ReadText (''data'', ''db'', MetaFile),
         Open (''data'', ''db'', CollectionFile 0) MODE_READ,
         Open (''data'', ''db'', CollectionFile 1) MODE_READ,
         Read (''data'', ''db'', CollectionFile 0) (ReadFail ''EIO''),
         Read (''data'', ''db'', CollectionFile 1) (ReadOk (- 1) []),
         Close (''data'', ''db'', CollectionFile 1)]"
    by (simp add: load_defs sample_defs)
  show ?thesis
    by (simp add: export load)
qed

text \<open>
  Claim C8. When the metadata file of the name does not exist, \<^verbatim>\<open>loadDatabase\<close> calls
  the callback with \<^verbatim>\<open>undefined\<close>; its only request is the existence test of the
  metadata file, so nothing is opened or read, no exception is raised, and the file system
  is left as it was.
\<close>

theorem load_not_found:
  assumes "fs (getDescriptor A nm MetaFile) = None"
  shows "loadDatabase P A nm fs = (Undefined, [Exists (getDescriptor A nm MetaFile)])
    \<and> run_events (snd (loadDatabase P A nm fs)) fs = fs"
  using assms by (simp add: loadDatabase_def run_events_def)

theorem load_not_found_witness:
  "sample_files (getDescriptor sample_adapter ''never-saved-db'' MetaFile) = None
   \<and> loadDatabase sample_platform sample_adapter ''never-saved-db'' sample_files
       = (Undefined, [Exists (getDescriptor sample_adapter ''never-saved-db'' MetaFile)])
   \<and> run_events (snd (loadDatabase sample_platform sample_adapter ''never-saved-db'' sample_files))
       sample_files = sample_files"
proof -
  have h: "sample_files (getDescriptor sample_adapter ''never-saved-db'' MetaFile) = None"
    by (simp add: sample_files_def sample_defs)
  have "loadDatabase sample_platform sample_adapter ''never-saved-db'' sample_files
       = (Undefined, [Exists (getDescriptor sample_adapter ''never-saved-db'' MetaFile)])
   \<and> run_events (snd (loadDatabase sample_platform sample_adapter ''never-saved-db'' sample_files))
       sample_files = sample_files"
    using h by (rule load_not_found)
  with h show ?thesis
    by (rule conjI)
qed

end
